theory Spec2Isabelle
  imports Main "HOL-Library.Word"
begin

section \<open>The torrent file store (torrent/files.go)\<close>

text \<open>
  A \<open>fileStore\<close> presents the files of a torrent as one flat, randomly addressable
  byte range. The store itself holds only the table of start offsets and the handles;
  the bytes live behind three collaborators that the source reaches through Go
  interfaces: the \<open>FileSystem\<close> that opens handles, the \<open>File\<close> handles themselves
  and the optional \<open>TorrentCache\<close>.

  The embedding is a state-passing one. The state is the history of collaborator calls
  made so far (\<open>event list\<close>); every collaborator call appends one event. What a
  collaborator answers is given by an oracle that may depend on the whole history, so
  stateful handles (a file that returns what was written to it, a handle that starts
  failing) are covered. A Go run-time panic (slice bounds, index out of range,
  \<open>log.Panicln\<close>) is the outcome \<open>Inl\<close>.

  Go's \<open>int64\<close> is a 64 bit word read as two's complement (\<open>sint\<close>, \<open><s\<close>); its
  arithmetic wraps. Go's \<open>int\<close> only ever counts bytes of a slice here and is an
  \<open>int\<close>; slice lengths and indices are \<open>nat\<close>.
\<close>

subsection \<open>Data\<close>

type_synonym byte = "8 word"
type_synonym int64 = "64 word"

text \<open>Interface values are identified by a number: a handle, a file system, a cache.\<close>

type_synonym File = nat
type_synonym FileSystem = nat
type_synonym TorrentCache = nat

text \<open>
  An \<open>error\<close> is either made here by \<open>errors.New\<close> or comes from a collaborator.
\<close>

datatype error = ErrorsNew string | ExternalError string

datatype panic = SliceBoundsOutOfRange | IndexOutOfRange | LogPanicln string error

text \<open>
  Modelled from the spec: the declarations of \<open>FileDict\<close> and \<open>InfoDict\<close> are
  not part of files.go. The construction input is an ordered list of declared files,
  each a length, a sequence of path components and an optional checksum, plus the name
  and length of the torrent as a whole; the fields are the ones \<open>NewFileStore\<close>
  reads, those of \<open>FileDict\<close> in the order of its struct literal.
\<close>

record FileDict =
  fd_Length :: int64
  fd_Path :: "string list"
  fd_Md5sum :: string

record InfoDict =
  info_Name :: string
  info_Length :: int64
  info_Md5sum :: string
  info_Files :: "FileDict list"

record fileEntry =
  entry_length :: int64
  entry_file :: File

record fileStore =
  fileSystem :: FileSystem
  offsets :: "int64 list"
  files :: "fileEntry list"
  cache :: "TorrentCache option"

text \<open>
  Modelled from the spec: the declaration of \<open>chunk\<close> is not part of files.go. It
  is the range passed across the cache boundary, a buffer and a flat offset; files.go
  reads the fields \<open>data\<close> and \<open>i\<close>.
\<close>

record chunk =
  chunk_i :: int64
  chunk_data :: "byte list"

subsection \<open>Collaborators\<close>

text \<open>
  One event per collaborator call. \<open>FsOpen\<close> also records what the file system
  answered, since this is where a handle comes into being. A read event records the
  length of the slice passed and the local offset, a write event the bytes passed.
\<close>

datatype event =
    FsOpen FileSystem "string list" int64 "error + File"
  | FileReadAt File nat int64
  | FileWriteAt File "byte list" int64
  | FileClose File
  | CacheReadAt TorrentCache nat int64
  | CacheWriteAt TorrentCache "byte list" int64
  | CacheMarkCommitted TorrentCache int
  | CacheClose TorrentCache

text \<open>
  The answers of the collaborators, each a function of the history so far and of the
  arguments of the call.
  \<^item> \<open>fs_Open\<close>: an error, or the handle.
  \<^item> \<open>file_ReadAt\<close>, for a slice of the given length: the bytes the handle stored at the
    front of the slice, the count it returned and its error.
  \<^item> \<open>file_WriteAt\<close>: the count and the error.
  \<^item> \<open>cache_ReadAt\<close>: the buffer as the cache left it, and the unfulfilled ranges.
  \<^item> \<open>cache_WriteAt\<close>: the ranges that need a raw write; \<open>None\<close> is Go's nil slice.
  The errors of \<open>File.Close\<close> and \<open>TorrentCache.Close\<close> are dropped by every caller in
  the source and \<open>MarkCommitted\<close> returns nothing, so they have no oracle.

  \<open>Open\<close> is taken to return a handle exactly when it returns no error, and a
  handle is never nil. The lines \<open>ReadAt\<close> writes to the log are not part of the
  history.
\<close>

record collaborators =
  fs_Open :: "event list \<Rightarrow> FileSystem \<Rightarrow> string list \<Rightarrow> int64 \<Rightarrow> error + File"
  file_ReadAt :: "event list \<Rightarrow> File \<Rightarrow> nat \<Rightarrow> int64 \<Rightarrow> byte list \<times> int \<times> error option"
  file_WriteAt :: "event list \<Rightarrow> File \<Rightarrow> byte list \<Rightarrow> int64 \<Rightarrow> int \<times> error option"
  cache_ReadAt :: "event list \<Rightarrow> TorrentCache \<Rightarrow> byte list \<Rightarrow> int64 \<Rightarrow> byte list \<times> chunk list"
  cache_WriteAt :: "event list \<Rightarrow> TorrentCache \<Rightarrow> byte list \<Rightarrow> int64 \<Rightarrow> chunk list option"

type_synonym 'a outcome = "(panic + 'a) \<times> event list"

text \<open>
  A callee cannot change the length of the slice it is given: of the bytes it returns,
  those that fit replace the front of the slice, the rest of the slice stays.
\<close>

definition overwrite :: "byte list \<Rightarrow> byte list \<Rightarrow> byte list" where
  "overwrite new old = take (length old) new @ drop (length new) old"

subsection \<open>NewFileStore\<close>

text \<open>
  Closing the handles of a list of entries, first to last. It is the loop of \<open>Close\<close>
  and the clean-up loop of \<open>NewFileStore\<close>.
\<close>

fun Close_loop :: "fileEntry list \<Rightarrow> event list \<Rightarrow> event list" where
  "Close_loop [] hist = hist"
| "Close_loop (e # es) hist = Close_loop es (hist @ [FileClose (entry_file e)])"

text \<open>
  The loop over \<open>info.Files\<close>. \<open>opened\<close> and \<open>offs\<close> are the entries and offsets
  filled in so far, \<open>totalSize\<close> the running sum (wrapping, as \<open>int64\<close> does). On a
  failed open the handles opened so far are closed and the function returns no store,
  the running total and the error.
\<close>

fun NewFileStore_loop ::
  "collaborators \<Rightarrow> FileSystem \<Rightarrow> FileDict list \<Rightarrow> fileEntry list \<Rightarrow> int64 list \<Rightarrow> int64 \<Rightarrow>
   event list \<Rightarrow> (fileStore option \<times> int64 \<times> error option) \<times> event list" where
  "NewFileStore_loop env fsys [] opened offs totalSize hist =
     ((Some \<lparr>fileSystem = fsys, offsets = offs, files = opened, cache = None\<rparr>, totalSize, None),
      hist)"
| "NewFileStore_loop env fsys (src # rest) opened offs totalSize hist =
     (let r = fs_Open env hist fsys (fd_Path src) (fd_Length src);
          hist' = hist @ [FsOpen fsys (fd_Path src) (fd_Length src) r]
      in case r of
           Inl err \<Rightarrow>
             ((None, totalSize, Some err), Close_loop opened hist')
         | Inr file \<Rightarrow>
             NewFileStore_loop env fsys rest
               (opened @ [\<lparr>entry_length = fd_Length src, entry_file = file\<rparr>])
               (offs @ [totalSize]) (totalSize + fd_Length src) hist')"

text \<open>
  The files the loop runs over: \<open>info.Files\<close>, or, when there are none, the one
  file made up from the name, length and checksum of the torrent itself.
\<close>

definition declared_files :: "InfoDict \<Rightarrow> FileDict list" where
  "declared_files info =
     (if length (info_Files info) = 0
      then [\<lparr>fd_Length = info_Length info, fd_Path = [info_Name info],
             fd_Md5sum = info_Md5sum info\<rparr>]
      else info_Files info)"

definition NewFileStore ::
  "collaborators \<Rightarrow> InfoDict \<Rightarrow> FileSystem \<Rightarrow> event list \<Rightarrow>
   (fileStore option \<times> int64 \<times> error option) \<times> event list" where
  "NewFileStore env info fsys hist = NewFileStore_loop env fsys (declared_files info) [] [] 0 hist"

text \<open>
  The events of opening the files \<open>fds\<close> with success, the handles returned being
  \<open>hs\<close>.
\<close>

definition opens :: "FileSystem \<Rightarrow> FileDict list \<Rightarrow> File list \<Rightarrow> event list" where
  "opens fsys fds hs = map2 (\<lambda>src h. FsOpen fsys (fd_Path src) (fd_Length src) (Inr h)) fds hs"

definition SetCache :: "fileStore \<Rightarrow> TorrentCache option \<Rightarrow> fileStore" where
  "SetCache f c = f\<lparr>cache := c\<rparr>"

subsection \<open>find\<close>

text \<open>
  The binary search. \<open>low\<close>, \<open>high\<close> and \<open>probe\<close> are indices into the table and
  never negative, except for \<open>high - 1\<close> on an empty table, which is \<open>-1\<close> in Go and
  \<open>0\<close> here: the test \<open>low < high - 1\<close> is false either way.
\<close>

function find_loop :: "int64 list \<Rightarrow> int64 \<Rightarrow> nat \<Rightarrow> nat \<Rightarrow> nat" where
  "find_loop offs offset low high =
     (if low < high - 1 then
        (let probe = (low + high) div 2;
             entry = offs ! probe
         in if offset <s entry then find_loop offs offset low probe
            else find_loop offs offset probe high)
      else low)"
  by pat_completeness auto
termination
  by (relation "measure (\<lambda>(offs, offset, low, high). high - low)") auto

definition find_store :: "fileStore \<Rightarrow> int64 \<Rightarrow> nat" where
  "find_store f offset = find_loop (offsets f) offset 0 (length (offsets f))"

subsection \<open>RawReadAt\<close>

text \<open>
  \<open>chunk\<close> starts as the length of the slice and is cut down to the space left in the
  entry: \<open>if space < chunk { chunk = space }\<close>.
\<close>

definition clamp :: "int64 \<Rightarrow> int64 \<Rightarrow> int64" where
  "clamp space chunk = (if space <s chunk then space else chunk)"

text \<open>
  The walk over the entries. \<open>filled\<close> is the part of the caller's buffer that lies
  before the current slice \<open>p\<close>; the buffer the caller sees afterwards is
  \<open>filled @ p\<close>. The slice expressions \<open>p[0:chunk]\<close> and \<open>p[nThisTime:]\<close> panic
  when out of range, as does \<open>f.files[index]\<close>. (Go checks \<open>chunk\<close> against the
  capacity of \<open>p\<close>, the model against its length; \<open>chunk\<close> is never above the
  length of a slice shorter than \<open>2 ^ 63\<close>, so the two agree.) On return the rest
  of the slice is filled with zeros; the count \<open>n\<close> is returned as the walk left it.
\<close>

function RawReadAt_loop ::
  "collaborators \<Rightarrow> fileStore \<Rightarrow> byte list \<Rightarrow> byte list \<Rightarrow> int64 \<Rightarrow> nat \<Rightarrow> int \<Rightarrow>
   event list \<Rightarrow> (int \<times> error option \<times> byte list) outcome" where
  "RawReadAt_loop env f filled p off index n hist =
     (if length p > 0 \<and> index < length (offsets f) then
        (if length (files f) \<le> index then (Inl IndexOutOfRange, hist)
         else
           (let chunk0 = (of_nat (length p) :: int64);
                entry = files f ! index;
                itemOffset = off - offsets f ! index
            in if itemOffset <s entry_length entry then
                 (let space = entry_length entry - itemOffset;
                      chunk = clamp space chunk0
                  in if chunk <s 0 \<or> int (length p) < sint chunk
                     then (Inl SliceBoundsOutOfRange, hist)
                     else
                       (case file_ReadAt env hist (entry_file entry) (nat (sint chunk)) itemOffset of
                          (data, nThisTime, err) \<Rightarrow>
                            (let hist' = hist @ [FileReadAt (entry_file entry) (nat (sint chunk)) itemOffset];
                                 p' = overwrite data (take (nat (sint chunk)) p) @ drop (nat (sint chunk)) p;
                                 n' = n + nThisTime
                             in if err \<noteq> None then (Inr (n', err, filled @ p'), hist')
                                else if nThisTime < 0 \<or> int (length p') < nThisTime
                                then (Inl SliceBoundsOutOfRange, hist')
                                else RawReadAt_loop env f (filled @ take (nat nThisTime) p')
                                       (drop (nat nThisTime) p') (off + of_int nThisTime)
                                       (index + 1) n' hist')))
               else RawReadAt_loop env f filled p off (index + 1) n hist))
      else (Inr (n, None, filled @ replicate (length p) 0), hist))"
  by pat_completeness auto
termination
  by (relation "measure (\<lambda>(env, f, filled, p, off, index, n, hist). length (offsets f) - index)")
    auto

definition RawReadAt ::
  "collaborators \<Rightarrow> fileStore \<Rightarrow> byte list \<Rightarrow> int64 \<Rightarrow> event list \<Rightarrow>
   (int \<times> error option \<times> byte list) outcome" where
  "RawReadAt env f p off hist = RawReadAt_loop env f [] p off (find_store f off) 0 hist"

subsection \<open>ReadAt\<close>

text \<open>
  The loop over the unfulfilled ranges. Each range's buffer is filled by a raw read;
  the buffers as they are afterwards are collected in \<open>seen\<close>, since the caller of
  the cache sees them change. The count of each raw read is dropped, its error kept in
  \<open>retErr\<close> (the source also logs it).
\<close>

fun ReadAt_loop ::
  "collaborators \<Rightarrow> fileStore \<Rightarrow> chunk list \<Rightarrow> error option \<Rightarrow> chunk list \<Rightarrow> event list \<Rightarrow>
   (error option \<times> chunk list) outcome" where
  "ReadAt_loop env f [] retErr seen hist = (Inr (retErr, seen), hist)"
| "ReadAt_loop env f (unf # rest) retErr seen hist =
     (case RawReadAt env f (chunk_data unf) (chunk_i unf) hist of
        (Inl pn, hist') \<Rightarrow> (Inl pn, hist')
      | (Inr (_, err, data'), hist') \<Rightarrow>
          ReadAt_loop env f rest (if err \<noteq> None then err else retErr)
            (seen @ [unf\<lparr>chunk_data := data'\<rparr>]) hist')"

text \<open>
  \<open>ReadAt\<close> returns the count, the error, the caller's buffer and the buffers of the
  unfulfilled ranges after their raw reads (none without a cache). Whether a range's
  buffer is a part of the caller's buffer is the cache's affair.
\<close>

definition ReadAt ::
  "collaborators \<Rightarrow> fileStore \<Rightarrow> byte list \<Rightarrow> int64 \<Rightarrow> event list \<Rightarrow>
   (int \<times> error option \<times> byte list \<times> chunk list) outcome" where
  "ReadAt env f p off hist =
     (case cache f of
        None \<Rightarrow>
          (case RawReadAt env f p off hist of
             (Inl pn, hist') \<Rightarrow> (Inl pn, hist')
           | (Inr (n, err, p'), hist') \<Rightarrow> (Inr (n, err, p', []), hist'))
      | Some c \<Rightarrow>
          (case cache_ReadAt env hist c p off of
             (p', unfullfilled) \<Rightarrow>
               (case ReadAt_loop env f unfullfilled None [] (hist @ [CacheReadAt c (length p) off]) of
                  (Inl pn, hist') \<Rightarrow> (Inl pn, hist')
                | (Inr (retErr, seen), hist') \<Rightarrow>
                    (Inr (int (length p), retErr, overwrite p' p, seen), hist'))))"

subsection \<open>RawWriteAt\<close>

text \<open>The check of what is left of the buffer once the entries have run out.\<close>

function trailing_loop :: "byte list \<Rightarrow> nat \<Rightarrow> int \<Rightarrow> int \<times> error option" where
  "trailing_loop p i n =
     (if i < length p then
        (if p ! i \<noteq> 0
         then (n + int i, Some (ErrorsNew ''Unexpected non-zero data at end of store.''))
         else trailing_loop p (i + 1) n)
      else (n + int (length p), None))"
  by pat_completeness auto
termination
  by (relation "measure (\<lambda>(p, i, n). length p - i)") auto

function RawWriteAt_loop ::
  "collaborators \<Rightarrow> fileStore \<Rightarrow> byte list \<Rightarrow> int64 \<Rightarrow> nat \<Rightarrow> int \<Rightarrow> event list \<Rightarrow>
   (int \<times> error option) outcome" where
  "RawWriteAt_loop env f p off index n hist =
     (if length p > 0 \<and> index < length (offsets f) then
        (if length (files f) \<le> index then (Inl IndexOutOfRange, hist)
         else
           (let chunk0 = (of_nat (length p) :: int64);
                entry = files f ! index;
                itemOffset = off - offsets f ! index
            in if itemOffset <s entry_length entry then
                 (let space = entry_length entry - itemOffset;
                      chunk = clamp space chunk0
                  in if chunk <s 0 \<or> int (length p) < sint chunk
                     then (Inl SliceBoundsOutOfRange, hist)
                     else
                       (case file_WriteAt env hist (entry_file entry) (take (nat (sint chunk)) p) itemOffset of
                          (nThisTime, err) \<Rightarrow>
                            (let hist' = hist @ [FileWriteAt (entry_file entry) (take (nat (sint chunk)) p) itemOffset];
                                 n' = n + nThisTime
                             in if err \<noteq> None then (Inr (n', err), hist')
                                else if nThisTime < 0 \<or> int (length p) < nThisTime
                                then (Inl SliceBoundsOutOfRange, hist')
                                else RawWriteAt_loop env f (drop (nat nThisTime) p)
                                       (off + of_int nThisTime) (index + 1) n' hist')))
               else RawWriteAt_loop env f p off (index + 1) n hist))
      else (Inr (trailing_loop p 0 n), hist))"
  by pat_completeness auto
termination
  by (relation "measure (\<lambda>(env, f, p, off, index, n, hist). length (offsets f) - index)") auto

definition RawWriteAt ::
  "collaborators \<Rightarrow> fileStore \<Rightarrow> byte list \<Rightarrow> int64 \<Rightarrow> event list \<Rightarrow> (int \<times> error option) outcome" where
  "RawWriteAt env f p off hist = RawWriteAt_loop env f p off (find_store f off) 0 hist"

subsection \<open>WriteAt, Commit, Close\<close>

text \<open>The loop over the ranges the cache did not absorb: count and error are dropped.\<close>

fun WriteAt_loop :: "collaborators \<Rightarrow> fileStore \<Rightarrow> chunk list \<Rightarrow> event list \<Rightarrow> unit outcome" where
  "WriteAt_loop env f [] hist = (Inr (), hist)"
| "WriteAt_loop env f (nc # rest) hist =
     (case RawWriteAt env f (chunk_data nc) (chunk_i nc) hist of
        (Inl pn, hist') \<Rightarrow> (Inl pn, hist')
      | (Inr _, hist') \<Rightarrow> WriteAt_loop env f rest hist')"

definition WriteAt ::
  "collaborators \<Rightarrow> fileStore \<Rightarrow> byte list \<Rightarrow> int64 \<Rightarrow> event list \<Rightarrow> (int \<times> error option) outcome" where
  "WriteAt env f p off hist =
     (case cache f of
        Some c \<Rightarrow>
          (let needRawWrite = cache_WriteAt env hist c p off;
               hist' = hist @ [CacheWriteAt c p off]
           in case needRawWrite of
                None \<Rightarrow> (Inr (int (length p), None), hist')
              | Some ncs \<Rightarrow>
                  (case WriteAt_loop env f ncs hist' of
                     (Inl pn, hist'') \<Rightarrow> (Inl pn, hist'')
                   | (Inr _, hist'') \<Rightarrow> (Inr (int (length p), None), hist'')))
      | None \<Rightarrow> RawWriteAt env f p off hist)"

definition Commit ::
  "collaborators \<Rightarrow> fileStore \<Rightarrow> int \<Rightarrow> byte list \<Rightarrow> int64 \<Rightarrow> event list \<Rightarrow> unit outcome" where
  "Commit env f pieceNum piece off hist =
     (case cache f of
        None \<Rightarrow> (Inr (), hist)
      | Some c \<Rightarrow>
          (case RawWriteAt env f piece off hist of
             (Inl pn, hist') \<Rightarrow> (Inl pn, hist')
           | (Inr (_, Some err), hist') \<Rightarrow> (Inl (LogPanicln ''Error committing to storage:'' err), hist')
           | (Inr (_, None), hist') \<Rightarrow> (Inr (), hist' @ [CacheMarkCommitted c pieceNum])))"

text \<open>\<open>Close\<close> returns its error, the store as it is afterwards and the history.\<close>

definition Close :: "fileStore \<Rightarrow> event list \<Rightarrow> error option \<times> fileStore \<times> event list" where
  "Close f hist =
     (let hist' = Close_loop (files f) hist
      in case cache f of
           Some c \<Rightarrow> (None, f\<lparr>cache := None\<rparr>, hist' @ [CacheClose c])
         | None \<Rightarrow> (None, f, hist'))"

subsection \<open>Reading a history\<close>

fun is_file_write :: "event \<Rightarrow> bool" where
  "is_file_write (FileWriteAt h d off) = True"
| "is_file_write _ = False"

text \<open>
  The raw reads of a list of ranges, one after the other, each starting from the
  history the one before left behind, whatever the one before returned: the outcome of
  each. Likewise the raw writes of a list of ranges.
\<close>

fun raw_reads ::
  "collaborators \<Rightarrow> fileStore \<Rightarrow> chunk list \<Rightarrow> event list \<Rightarrow>
   (int \<times> error option \<times> byte list) outcome list" where
  "raw_reads env f [] hist = []"
| "raw_reads env f (unf # rest) hist =
     (let r = RawReadAt env f (chunk_data unf) (chunk_i unf) hist
      in r # raw_reads env f rest (snd r))"

fun raw_writes ::
  "collaborators \<Rightarrow> fileStore \<Rightarrow> chunk list \<Rightarrow> event list \<Rightarrow>
   (int \<times> error option) outcome list" where
  "raw_writes env f [] hist = []"
| "raw_writes env f (nc # rest) hist =
     (let r = RawWriteAt env f (chunk_data nc) (chunk_i nc) hist
      in r # raw_writes env f rest (snd r))"

subsection \<open>The invariant of a constructed store\<close>

text \<open>
  The start offsets of a list of lengths: the running sums, beginning at \<open>s\<close>.
  The invariant reads them over the mathematical integers.
\<close>

fun starts :: "'a::plus \<Rightarrow> 'a list \<Rightarrow> 'a list" where
  "starts s [] = []"
| "starts s (l # ls) = s # starts (s + l) ls"

definition lengths :: "fileStore \<Rightarrow> int list" where
  "lengths f = map (\<lambda>e. sint (entry_length e)) (files f)"

definition totalSize :: "fileStore \<Rightarrow> int" where
  "totalSize f = sum_list (lengths f)"

text \<open>
  A well-formed store: one offset per entry, no negative length, every offset the sum
  of the lengths before it, and the total within \<open>int64\<close>.
\<close>

definition store_ok :: "fileStore \<Rightarrow> bool" where
  "store_ok f \<longleftrightarrow>
     length (offsets f) = length (files f) \<and>
     list_all (\<lambda>l. 0 \<le> l) (lengths f) \<and>
     map sint (offsets f) = starts (0::int) (lengths f) \<and>
     totalSize f < 2 ^ 63"

subsection \<open>Collaborators that keep their contracts\<close>

text \<open>
  \<open>io.ReaderAt\<close> and \<open>io.WriterAt\<close> promise a count between 0 and the length of the
  slice. Nothing is asked of the errors.
\<close>

definition reads_in_bounds :: "collaborators \<Rightarrow> bool" where
  "reads_in_bounds env \<longleftrightarrow>
     (\<forall>hist h len off. case file_ReadAt env hist h len off of
        (data, n, err) \<Rightarrow> 0 \<le> n \<and> n \<le> int len)"

definition writes_in_bounds :: "collaborators \<Rightarrow> bool" where
  "writes_in_bounds env \<longleftrightarrow>
     (\<forall>hist h d off. case file_WriteAt env hist h d off of
        (n, err) \<Rightarrow> 0 \<le> n \<and> n \<le> int (length d))"

text \<open>
  A range as a Go program can hold it: a flat offset that is not negative, a buffer
  shorter than \<open>2 ^ 63\<close> bytes.
\<close>

definition chunk_ok :: "chunk \<Rightarrow> bool" where
  "chunk_ok c \<longleftrightarrow> 0 \<le> sint (chunk_i c) \<and> length (chunk_data c) < 2 ^ 63"

subsection \<open>Test doubles\<close>

text \<open>
  An in-memory file system for the examples. The handle of an open is the number of
  opens before it; the open number \<open>bad_open\<close> fails. \<open>disk h\<close> is what handle \<open>h\<close>
  holds. Reads return the bytes at the local offset, and fail short at the end of the
  file; reads and writes of the handles in \<open>bad_io\<close> fail outright. The cache of the
  double holds nothing: it reports the whole range as unfulfilled on a read and as
  needing a raw write on a write.
\<close>

fun is_open :: "event \<Rightarrow> bool" where
  "is_open (FsOpen fsys path len r) = True"
| "is_open _ = False"

definition double_Open ::
  "nat option \<Rightarrow> event list \<Rightarrow> FileSystem \<Rightarrow> string list \<Rightarrow> int64 \<Rightarrow> error + File" where
  "double_Open bad_open hist fsys path len =
     (if bad_open = Some (length (filter is_open hist))
      then Inl (ExternalError ''open failed'')
      else Inr (length (filter is_open hist)))"

definition double_ReadAt ::
  "(File \<Rightarrow> byte list) \<Rightarrow> File list \<Rightarrow> event list \<Rightarrow> File \<Rightarrow> nat \<Rightarrow> int64 \<Rightarrow>
   byte list \<times> int \<times> error option" where
  "double_ReadAt disk bad_io hist h len off =
     (if h \<in> set bad_io \<or> off <s 0 then ([], 0, Some (ExternalError ''read failed''))
      else (let d = take len (drop (nat (sint off)) (disk h))
            in (d, int (length d), if length d < len then Some (ExternalError ''EOF'') else None)))"

definition double_WriteAt ::
  "File list \<Rightarrow> event list \<Rightarrow> File \<Rightarrow> byte list \<Rightarrow> int64 \<Rightarrow> int \<times> error option" where
  "double_WriteAt bad_io hist h d off =
     (if h \<in> set bad_io then (0, Some (ExternalError ''write failed''))
      else (int (length d), None))"

definition double :: "(File \<Rightarrow> byte list) \<Rightarrow> nat option \<Rightarrow> File list \<Rightarrow> collaborators" where
  "double disk bad_open bad_io =
     \<lparr>fs_Open = double_Open bad_open,
      file_ReadAt = double_ReadAt disk bad_io,
      file_WriteAt = double_WriteAt bad_io,
      cache_ReadAt = (\<lambda>hist c p off. (p, [\<lparr>chunk_i = off, chunk_data = p\<rparr>])),
      cache_WriteAt = (\<lambda>hist c p off. Some [\<lparr>chunk_i = off, chunk_data = p\<rparr>])\<rparr>"

text \<open>
  The same with a cache that reports a read range as two unfulfilled ranges, the first
  byte and the rest.
\<close>

definition double_split :: "(File \<Rightarrow> byte list) \<Rightarrow> File list \<Rightarrow> collaborators" where
  "double_split disk bad_io =
     (double disk None bad_io)
       \<lparr>cache_ReadAt := (\<lambda>hist c p off.
          (p, [\<lparr>chunk_i = off, chunk_data = take 1 p\<rparr>,
               \<lparr>chunk_i = off + 1, chunk_data = drop 1 p\<rparr>]))\<rparr>"

text \<open>Two files, of 4 and 6 bytes, and the store \<open>NewFileStore\<close> builds from them.\<close>

definition disk46 :: "File \<Rightarrow> byte list" where
  "disk46 h = (if h = 0 then [10, 11, 12, 13] else if h = 1 then [20, 21, 22, 23, 24, 25] else [])"

definition info46 :: InfoDict where
  "info46 =
     \<lparr>info_Name = ''t'', info_Length = 0, info_Md5sum = [],
      info_Files = [\<lparr>fd_Length = 4, fd_Path = [''a''], fd_Md5sum = []\<rparr>,
                    \<lparr>fd_Length = 6, fd_Path = [''b''], fd_Md5sum = []\<rparr>]\<rparr>"

definition info_single :: InfoDict where
  "info_single = \<lparr>info_Name = ''t'', info_Length = 10, info_Md5sum = [], info_Files = []\<rparr>"



definition store46 :: fileStore where
  "store46 =
     \<lparr>fileSystem = 0, offsets = [0, 4],
      files = [\<lparr>entry_length = 4, entry_file = 0\<rparr>, \<lparr>entry_length = 6, entry_file = 1\<rparr>],
      cache = None\<rparr>"

section \<open>Proofs\<close>

declare find_loop.simps [simp del]
declare trailing_loop.simps [simp del]
declare RawReadAt_loop.simps [simp del]
declare RawWriteAt_loop.simps [simp del]

subsection \<open>Signed 64 bit arithmetic without overflow\<close>

lemma sint64_bounds: "- (2 ^ 63) \<le> sint (w :: int64)" "sint (w :: int64) < 2 ^ 63"
  using sint_ge [of w] sint_lt [of w] by simp_all

lemma sint64_diff:
  assumes "- (2 ^ 63) \<le> sint a - sint b" and "sint a - sint b < 2 ^ 63"
  shows "sint (a - b :: int64) = sint a - sint b"
  using assms by (simp add: sint_word_diff signed_take_bit_int_eq_self)


lemma sint64_add_int:
  assumes "- (2 ^ 63) \<le> sint a + k" and "sint a + k < 2 ^ 63"
  shows "sint (a + of_int k :: int64) = sint a + k"
proof -
  have "a + of_int k = (word_of_int (sint a + k) :: int64)"
    by simp
  then show ?thesis
    using assms by (simp only: sint_sbintrunc') (simp add: signed_take_bit_int_eq_self)
qed

lemma sint64_of_nat:
  assumes "n < 2 ^ 63"
  shows "sint (of_nat n :: int64) = int n"
proof -
  have "(of_nat n :: int64) = word_of_int (int n)" by simp
  moreover have "int n < 2 ^ 63" using assms by (simp add: of_nat_less_numeral_power_cancel_iff)
  ultimately show ?thesis
    by (simp only: sint_sbintrunc') (simp add: signed_take_bit_int_eq_self)
qed

subsection \<open>Running sums\<close>

lemma length_starts [simp]: "length (starts s ls) = length ls"
  by (induction ls arbitrary: s) auto

lemma starts_nth:
  fixes s :: "'a::monoid_add"
  shows "i < length ls \<Longrightarrow> starts s ls ! i = s + sum_list (take i ls)"
proof (induction ls arbitrary: s i)
  case Nil
  then show ?case by simp
next
  case (Cons l ls)
  then show ?case by (cases i) (simp_all add: add.assoc)
qed

lemma sum_list_take_le:
  fixes ls :: "int list"
  assumes "list_all (\<lambda>l. 0 \<le> l) ls"
  shows "0 \<le> sum_list (take i ls) \<and> sum_list (take i ls) \<le> sum_list ls"
proof -
  have nn: "\<And>xs :: int list. list_all (\<lambda>l. 0 \<le> l) xs \<Longrightarrow> 0 \<le> sum_list xs"
    by (simp add: list_all_iff sum_list_nonneg)
  have "sum_list ls = sum_list (take i ls) + sum_list (drop i ls)"
    by (metis append_take_drop_id sum_list_append)
  moreover have "list_all (\<lambda>l. 0 \<le> l) (drop i ls)" "list_all (\<lambda>l. 0 \<le> l) (take i ls)"
    using assms unfolding list_all_iff by (blast dest: in_set_dropD in_set_takeD)+
  then have "0 \<le> sum_list (drop i ls)" "0 \<le> sum_list (take i ls)"
    by (simp_all add: nn)
  ultimately show ?thesis by simp
qed

lemma sum_list_take_Suc:
  fixes ls :: "int list"
  shows "i < length ls \<Longrightarrow> sum_list (take (Suc i) ls) = sum_list (take i ls) + ls ! i"
  by (simp add: take_Suc_conv_app_nth)

text \<open>What the invariant says about one entry.\<close>

lemma store_ok_entry:
  assumes "store_ok f" and "i < length (offsets f)"
  shows "i < length (files f)"
    and "sint (offsets f ! i) = sum_list (take i (lengths f))"
    and "0 \<le> sint (offsets f ! i)"
    and "0 \<le> sint (entry_length (files f ! i))"
    and "sint (offsets f ! i) + sint (entry_length (files f ! i)) \<le> totalSize f"
    and "totalSize f < 2 ^ 63"
proof -
  from assms have len: "length (offsets f) = length (files f)"
    and nn: "list_all (\<lambda>l. 0 \<le> l) (lengths f)"
    and st: "map sint (offsets f) = starts 0 (lengths f)"
    and tot: "totalSize f < 2 ^ 63"
    by (simp_all add: store_ok_def)
  show i: "i < length (files f)" using assms(2) len by simp
  then have il: "i < length (lengths f)" by (simp add: lengths_def)
  have "sint (offsets f ! i) = map sint (offsets f) ! i"
    using assms(2) by simp
  also have "\<dots> = sum_list (take i (lengths f))"
    using il by (simp add: st starts_nth)
  finally show off: "sint (offsets f ! i) = sum_list (take i (lengths f))" .
  show "0 \<le> sint (offsets f ! i)"
    using sum_list_take_le [OF nn, of i] off by simp
  have li: "sint (entry_length (files f ! i)) = lengths f ! i"
    using i by (simp add: lengths_def)
  show "0 \<le> sint (entry_length (files f ! i))"
    using nn il li by (simp add: list_all_length)
  have "sum_list (take (Suc i) (lengths f)) \<le> sum_list (lengths f)"
    using sum_list_take_le [OF nn, of "Suc i"] by simp
  then show "sint (offsets f ! i) + sint (entry_length (files f ! i)) \<le> totalSize f"
    using il by (simp add: off li sum_list_take_Suc totalSize_def)
  show "totalSize f < 2 ^ 63" by (rule tot)
qed

lemma store_ok_next:
  assumes "store_ok f" and "Suc i < length (offsets f)"
  shows "sint (offsets f ! Suc i) = sint (offsets f ! i) + sint (entry_length (files f ! i))"
proof -
  have i: "i < length (offsets f)" using assms(2) by simp
  then have il: "i < length (lengths f)"
    using store_ok_entry(1) [OF assms(1) i] by (simp add: lengths_def)
  then have "lengths f ! i = sint (entry_length (files f ! i))"
    by (simp add: lengths_def)
  then show ?thesis
    using store_ok_entry(2) [OF assms(1) assms(2)] store_ok_entry(2) [OF assms(1) i] il
    by (simp add: sum_list_take_Suc)
qed

lemma store_ok_sorted:
  assumes "store_ok f"
  shows "sorted (map sint (offsets f))"
proof -
  have nn: "list_all (\<lambda>l. 0 \<le> l) (lengths f)"
    using assms by (simp add: store_ok_def)
  have "sint (offsets f ! i) \<le> sint (offsets f ! j)" if "i \<le> j" "j < length (offsets f)" for i j
  proof -
    have "sum_list (take i (take j (lengths f))) \<le> sum_list (take j (lengths f))"
      using sum_list_take_le [of "take j (lengths f)" i] nn
      by (auto simp: list_all_iff dest: in_set_takeD)
    then show ?thesis
      using that store_ok_entry(2) [OF assms, of i] store_ok_entry(2) [OF assms, of j]
      by (simp add: min_absorb1)
  qed
  then show ?thesis
    by (simp add: sorted_iff_nth_mono)
qed

lemma store_ok_first:
  assumes "store_ok f" and "offsets f \<noteq> []"
  shows "sint (offsets f ! 0) = 0"
  using store_ok_entry(2) [OF assms(1), of 0] assms(2) by simp

subsection \<open>The binary search\<close>

lemma find_loop_last:
  assumes "sorted (map sint offs)" and "low < high" and "high \<le> length offs"
    and "sint (offs ! low) \<le> sint off"
    and "high < length offs \<longrightarrow> sint off < sint (offs ! high)"
  shows "low \<le> find_loop offs off low high \<and> find_loop offs off low high < high \<and>
         sint (offs ! find_loop offs off low high) \<le> sint off \<and>
         (\<forall>j. find_loop offs off low high < j \<and> j < length offs \<longrightarrow> sint off < sint (offs ! j))"
  using assms
proof (induction offs off low high rule: find_loop.induct)
  case (1 offs off low high)
  show ?case
  proof (cases "low < high - 1")
    case False
    with "1.prems" have eq: "high = Suc low" by simp
    have "sint off < sint (offs ! j)" if "low < j" "j < length offs" for j
    proof -
      from that eq have hj: "high \<le> j" "high < length offs" by simp_all
      then have "sint (offs ! high) \<le> sint (offs ! j)"
        using "1.prems"(1) that(2) by (simp add: sorted_iff_nth_mono)
      with hj "1.prems"(5) show ?thesis by simp
    qed
    with False "1.prems" show ?thesis
      by (simp add: find_loop.simps [of offs off low high])
  next
    case True
    define probe where "probe = (low + high) div 2"
    from True have pr: "low < probe" "probe < high" by (simp_all add: probe_def)
    show ?thesis
    proof (cases "off <s offs ! probe")
      case lt: True
      have "low \<le> find_loop offs off low probe \<and> find_loop offs off low probe < probe \<and>
            sint (offs ! find_loop offs off low probe) \<le> sint off \<and>
            (\<forall>j. find_loop offs off low probe < j \<and> j < length offs \<longrightarrow> sint off < sint (offs ! j))"
        using "1.IH"(1) [OF True probe_def refl lt] "1.prems" pr lt
        by (simp add: word_sless_alt)
      with True lt pr show ?thesis
        by (simp add: find_loop.simps [of offs off low high] probe_def [symmetric])
    next
      case ge: False
      have "probe \<le> find_loop offs off probe high \<and> find_loop offs off probe high < high \<and>
            sint (offs ! find_loop offs off probe high) \<le> sint off \<and>
            (\<forall>j. find_loop offs off probe high < j \<and> j < length offs \<longrightarrow> sint off < sint (offs ! j))"
        using "1.IH"(2) [OF True probe_def refl ge] "1.prems" pr ge
        by (simp add: word_sless_alt)
      with True ge pr show ?thesis
        by (simp add: find_loop.simps [of offs off low high] probe_def [symmetric])
    qed
  qed
qed

lemma find_store_last:
  assumes "sorted (map sint (offsets f))" and "offsets f \<noteq> []"
    and "sint (offsets f ! 0) \<le> sint off"
  shows "find_store f off < length (offsets f)"
    and "sint (offsets f ! find_store f off) \<le> sint off"
    and "find_store f off < j \<Longrightarrow> j < length (offsets f) \<Longrightarrow> sint off < sint (offsets f ! j)"
  using find_loop_last [of "offsets f" 0 "length (offsets f)" off] assms
  by (simp_all add: find_store_def)

lemma find_store_eq:
  assumes "sorted (map sint (offsets f))" and "i < length (offsets f)"
    and "sint (offsets f ! 0) \<le> sint off"
    and "sint (offsets f ! i) \<le> sint off"
    and "\<And>j. i < j \<Longrightarrow> j < length (offsets f) \<Longrightarrow> sint off < sint (offsets f ! j)"
  shows "find_store f off = i"
proof -
  have ne: "offsets f \<noteq> []" using assms(2) by auto
  note fs = find_store_last [OF assms(1) ne assms(3)]
  have "\<not> find_store f off < i"
    using fs(3) [of i] assms(2,4) by auto
  moreover have "\<not> i < find_store f off"
    using assms(5) [of "find_store f off"] fs(1,2) by auto
  ultimately show ?thesis by simp
qed

lemma find_store_past_end:
  assumes "store_ok f" and "totalSize f \<le> sint off"
  shows "find_store f off = length (offsets f) - 1"
proof (cases "offsets f = []")
  case True
  then show ?thesis by (simp add: find_store_def find_loop.simps)
next
  case False
  then have i: "length (offsets f) - 1 < length (offsets f)" by simp
  note e = store_ok_entry [OF assms(1) i]
  show ?thesis
  proof (rule find_store_eq [OF store_ok_sorted [OF assms(1)] i])
    show "sint (offsets f ! 0) \<le> sint off"
      using store_ok_first [OF assms(1) False] e(3,4,5) assms(2) by simp
    show "sint (offsets f ! (length (offsets f) - 1)) \<le> sint off"
      using e(4,5) assms(2) by simp
  qed simp
qed

subsection \<open>Closing\<close>

lemma Close_loop_eq: "Close_loop es hist = hist @ map (\<lambda>e. FileClose (entry_file e)) es"
  by (induction es arbitrary: hist) simp_all

subsection \<open>The trailing check\<close>

lemma trailing_loop_eq:
  "i \<le> length p \<Longrightarrow>
   trailing_loop p i n =
     (if list_all (\<lambda>b. b = 0) (drop i p) then (n + int (length p), None)
      else (n + int (i + length (takeWhile (\<lambda>b. b = 0) (drop i p))),
            Some (ErrorsNew ''Unexpected non-zero data at end of store.'')))"
proof (induction p i n rule: trailing_loop.induct)
  case (1 p i n)
  show ?case
  proof (cases "i < length p")
    case False
    with "1.prems" have "i = length p" by simp
    then show ?thesis by (simp add: trailing_loop.simps [of p "length p" n])
  next
    case True
    then have dr: "drop i p = p ! i # drop (Suc i) p"
      by (simp add: Cons_nth_drop_Suc)
    show ?thesis
    proof (cases "p ! i = 0")
      case False
      with True show ?thesis by (simp add: trailing_loop.simps [of p i n] dr)
    next
      case z: True
      have "trailing_loop p i n = trailing_loop p (i + 1) n"
        using True z by (simp add: trailing_loop.simps [of p i n])
      also have "\<dots> =
        (if list_all (\<lambda>b. b = 0) (drop (i + 1) p) then (n + int (length p), None)
         else (n + int (i + 1 + length (takeWhile (\<lambda>b. b = 0) (drop (i + 1) p))),
               Some (ErrorsNew ''Unexpected non-zero data at end of store.'')))"
        using "1.IH" [OF True] True z by simp
      finally show ?thesis using z by (simp add: dr)
    qed
  qed
qed

subsection \<open>Raw access past the end of the store\<close>

lemma itemOffset_past_end:
  assumes "store_ok f" and "totalSize f \<le> sint off" and "i < length (offsets f)"
  shows "\<not> off - offsets f ! i <s entry_length (files f ! i)"
proof -
  note e = store_ok_entry [OF assms(1,3)]
  have "0 \<le> sint off" using e(3,4,5) assms(2) by simp
  then have "sint (off - offsets f ! i) = sint off - sint (offsets f ! i)"
    using e(3) sint64_bounds [of off] sint64_bounds [of "offsets f ! i"]
    by (intro sint64_diff) simp_all
  then show ?thesis
    using e(5) assms(2) by (simp add: word_sless_alt)
qed

lemma RawWriteAt_loop_skip:
  assumes "store_ok f" and "totalSize f \<le> sint off" and "i < length (offsets f)" and "p \<noteq> []"
  shows "RawWriteAt_loop env f p off i n hist = RawWriteAt_loop env f p off (Suc i) n hist"
  using assms(3,4) store_ok_entry(1) [OF assms(1,3)] itemOffset_past_end [OF assms(1,2,3)]
  by (subst RawWriteAt_loop.simps) (simp add: Let_def)

lemma RawWriteAt_loop_past_end:
  assumes "store_ok f" and "totalSize f \<le> sint off"
  shows "RawWriteAt_loop env f p off (length (offsets f) - 1) n hist = (Inr (trailing_loop p 0 n), hist)"
proof (cases "offsets f = [] \<or> p = []")
  case True
  then show ?thesis by (subst RawWriteAt_loop.simps) auto
next
  case False
  define i where "i = length (offsets f) - 1"
  with False have i: "i < length (offsets f)" "Suc i = length (offsets f)" by simp_all
  have "RawWriteAt_loop env f p off i n hist = RawWriteAt_loop env f p off (Suc i) n hist"
    using False by (intro RawWriteAt_loop_skip [OF assms i(1)]) simp
  also have "\<dots> = (Inr (trailing_loop p 0 n), hist)"
    by (subst RawWriteAt_loop.simps) (simp add: i(2))
  finally show ?thesis by (simp add: i_def)
qed

lemma RawReadAt_loop_skip:
  assumes "store_ok f" and "totalSize f \<le> sint off" and "i < length (offsets f)" and "p \<noteq> []"
  shows "RawReadAt_loop env f filled p off i n hist = RawReadAt_loop env f filled p off (Suc i) n hist"
  using assms(3,4) store_ok_entry(1) [OF assms(1,3)] itemOffset_past_end [OF assms(1,2,3)]
  by (subst RawReadAt_loop.simps) (simp add: Let_def)

lemma RawReadAt_loop_past_end:
  assumes "store_ok f" and "totalSize f \<le> sint off"
  shows "RawReadAt_loop env f filled p off (length (offsets f) - 1) n hist =
         (Inr (n, None, filled @ replicate (length p) 0), hist)"
proof (cases "offsets f = [] \<or> p = []")
  case True
  then show ?thesis by (subst RawReadAt_loop.simps) auto
next
  case False
  define i where "i = length (offsets f) - 1"
  with False have i: "i < length (offsets f)" "Suc i = length (offsets f)" by simp_all
  have "RawReadAt_loop env f filled p off i n hist = RawReadAt_loop env f filled p off (Suc i) n hist"
    using False by (intro RawReadAt_loop_skip [OF assms i(1)]) simp
  also have "\<dots> = (Inr (n, None, filled @ replicate (length p) 0), hist)"
    by (subst RawReadAt_loop.simps) (simp add: i(2))
  finally show ?thesis by (simp add: i_def)
qed

text \<open>
  A raw read at or past the end of the store touches no handle, fills the buffer with
  zeros and returns the count 0.
\<close>

lemma RawReadAt_past_end:
  assumes "store_ok f" and "totalSize f \<le> sint off"
  shows "RawReadAt env f p off hist = (Inr (0, None, replicate (length p) 0), hist)"
  using RawReadAt_loop_past_end [OF assms, of env "[]" p 0 hist]
  by (simp add: RawReadAt_def find_store_past_end [OF assms])

subsection \<open>Construction\<close>

lemma opens_Nil [simp]: "opens fsys [] hs = []" "opens fsys fds [] = []"
  by (simp_all add: opens_def)

lemma opens_Cons [simp]:
  "opens fsys (src # fds) (h # hs) =
     FsOpen fsys (fd_Path src) (fd_Length src) (Inr h) # opens fsys fds hs"
  by (simp add: opens_def)

lemma NewFileStore_loop_fails_at:
  assumes "length hs = K" and "K < length fds"
    and "\<And>i. i < K \<Longrightarrow>
           fs_Open env (hist @ opens fsys (take i fds) (take i hs)) fsys
             (fd_Path (fds ! i)) (fd_Length (fds ! i)) = Inr (hs ! i)"
    and "fs_Open env (hist @ opens fsys (take K fds) hs) fsys
           (fd_Path (fds ! K)) (fd_Length (fds ! K)) = Inl e"
  shows "NewFileStore_loop env fsys fds opened offs t hist =
           ((None, t + sum_list (map fd_Length (take K fds)), Some e),
            hist @ opens fsys (take K fds) hs @
              [FsOpen fsys (fd_Path (fds ! K)) (fd_Length (fds ! K)) (Inl e)] @
              map (\<lambda>e. FileClose (entry_file e)) opened @ map FileClose hs)"
  using assms
proof (induction hs arbitrary: K fds opened offs t hist)
  case Nil
  then obtain src rest where fds: "fds = src # rest" by (cases fds) auto
  with Nil show ?case by (simp add: Close_loop_eq)
next
  case (Cons h hs')
  then obtain K' where K: "K = Suc K'" "length hs' = K'" by (cases K) auto
  with Cons.prems obtain src rest where fds: "fds = src # rest" "K' < length rest"
    by (cases fds) auto
  have first: "fs_Open env hist fsys (fd_Path src) (fd_Length src) = Inr h"
    using Cons.prems(3) [of 0] K fds by simp
  define hist1 where "hist1 = hist @ [FsOpen fsys (fd_Path src) (fd_Length src) (Inr h)]"
  have later: "fs_Open env (hist1 @ opens fsys (take i rest) (take i hs')) fsys
                 (fd_Path (rest ! i)) (fd_Length (rest ! i)) = Inr (hs' ! i)" if "i < K'" for i
    using Cons.prems(3) [of "Suc i"] that K fds by (simp add: hist1_def)
  have last: "fs_Open env (hist1 @ opens fsys (take K' rest) hs') fsys
                (fd_Path (rest ! K')) (fd_Length (rest ! K')) = Inl e"
    using Cons.prems(4) K fds by (simp add: hist1_def)
  have "NewFileStore_loop env fsys fds opened offs t hist =
        NewFileStore_loop env fsys rest
          (opened @ [\<lparr>entry_length = fd_Length src, entry_file = h\<rparr>])
          (offs @ [t]) (t + fd_Length src) hist1"
    using first by (simp add: fds hist1_def)
  also note Cons.IH [OF K(2) fds(2) later last]
  finally show ?case
    using K fds by (simp add: hist1_def add.assoc)
qed



subsection \<open>What a raw write adds to the history\<close>

lemma RawWriteAt_loop_events:
  "\<exists>ws. snd (RawWriteAt_loop env f p off index n hist) = hist @ ws \<and> list_all is_file_write ws"
proof (induction "length (offsets f) - index" arbitrary: index p off n hist)
  case 0
  then show ?case by (subst RawWriteAt_loop.simps) simp
next
  case (Suc k)
  then have k: "k = length (offsets f) - Suc index" by simp
  have skip: "\<exists>ws. snd (RawWriteAt_loop env f p off (Suc index) n hist) = hist @ ws \<and>
                list_all is_file_write ws"
    using Suc.hyps(1) [OF k, of p off n hist] by simp
  have go: "\<exists>ws. snd (RawWriteAt_loop env f p' off' (Suc index) n' (hist @ [FileWriteAt h d io])) =
                hist @ ws \<and> list_all is_file_write ws" for p' off' n' h d io
  proof -
    from Suc.hyps(1) [OF k, of p' off' n' "hist @ [FileWriteAt h d io]"]
    obtain ws where "snd (RawWriteAt_loop env f p' off' (Suc index) n' (hist @ [FileWriteAt h d io])) =
        hist @ FileWriteAt h d io # ws" "list_all is_file_write ws"
      by auto
    then show ?thesis by (intro exI [of _ "FileWriteAt h d io # ws"]) simp
  qed
  show ?case
    by (subst RawWriteAt_loop.simps) (simp add: Let_def skip go split: prod.split)
qed

lemma RawWriteAt_events:
  "\<exists>ws. snd (RawWriteAt env f p off hist) = hist @ ws \<and> list_all is_file_write ws"
  by (simp add: RawWriteAt_def RawWriteAt_loop_events)

subsection \<open>One step of the walk\<close>

text \<open>
  The arithmetic of one loop iteration on a well-formed store, for a flat offset that
  is not negative: nothing wraps.
\<close>

lemma itemOffset_sint:
  assumes "store_ok f" and "index < length (offsets f)" and "0 \<le> sint off"
  shows "sint (off - offsets f ! index) = sint off - sint (offsets f ! index)"
  using store_ok_entry(3) [OF assms(1,2)] assms(3)
    sint64_bounds [of off] sint64_bounds [of "offsets f ! index"]
  by (intro sint64_diff) simp_all

lemma space_sint:
  assumes "store_ok f" and "index < length (offsets f)" and "0 \<le> sint off"
    and "sint off < sint (offsets f ! index) + sint (entry_length (files f ! index))"
  shows "sint (entry_length (files f ! index) - (off - offsets f ! index)) =
         sint (offsets f ! index) + sint (entry_length (files f ! index)) - sint off"
proof -
  note e = store_ok_entry [OF assms(1,2)]
  have "sint (entry_length (files f ! index) - (off - offsets f ! index)) =
        sint (entry_length (files f ! index)) - sint (off - offsets f ! index)"
    using e(3,4,5,6) assms(3,4) by (intro sint64_diff) (simp_all add: itemOffset_sint [OF assms(1,2,3)])
  then show ?thesis by (simp add: itemOffset_sint [OF assms(1,2,3)])
qed

lemma clamp_sint:
  assumes "length p < 2 ^ 63"
  shows "sint (clamp space (of_nat (length p))) = min (sint space) (int (length p))"
  by (simp add: clamp_def word_sless_alt sint64_of_nat [OF assms] min_def)

lemma chunk_sint:
  assumes "store_ok f" and "index < length (offsets f)" and "0 \<le> sint off"
    and "sint off < sint (offsets f ! index) + sint (entry_length (files f ! index))"
    and "length p < 2 ^ 63"
  shows "sint (clamp (entry_length (files f ! index) - (off - offsets f ! index)) (of_nat (length p))) =
         min (sint (offsets f ! index) + sint (entry_length (files f ! index)) - sint off)
             (int (length p))"
  by (simp add: clamp_sint [OF assms(5)] space_sint [OF assms(1,2,3,4)])

lemma advance_sint:
  assumes "store_ok f" and "index < length (offsets f)" and "0 \<le> sint off"
    and "0 \<le> k"
    and "k \<le> sint (offsets f ! index) + sint (entry_length (files f ! index)) - sint off"
  shows "sint (off + of_int k :: int64) = sint off + k"
  using store_ok_entry(5,6) [OF assms(1,2)] assms(3,4,5)
  by (intro sint64_add_int) simp_all

text \<open>
  A step into an entry that holds the offset, with a handle that transfers the whole
  slice without error.
\<close>

lemma RawReadAt_loop_full_step:
  assumes ok: "store_ok f" and i: "index < length (offsets f)" and off: "0 \<le> sint off"
    and lp: "length p < 2 ^ 63" and pne: "p \<noteq> []"
    and lt: "sint off < sint (offsets f ! index) + sint (entry_length (files f ! index))"
    and c: "int c = min (sint (offsets f ! index) + sint (entry_length (files f ! index)) - sint off)
                        (int (length p))"
    and rd: "file_ReadAt env hist (entry_file (files f ! index)) c (off - offsets f ! index) =
               (d, int c, None)"
    and d: "length d = c"
  shows "RawReadAt_loop env f filled p off index n hist =
         RawReadAt_loop env f (filled @ d) (drop c p) (off + of_int (int c)) (Suc index) (n + int c)
           (hist @ [FileReadAt (entry_file (files f ! index)) c (off - offsets f ! index)])"
proof -
  have io: "off - offsets f ! index <s entry_length (files f ! index)"
    using lt by (simp add: word_sless_alt itemOffset_sint [OF ok i off])
  have ch: "sint (clamp (entry_length (files f ! index) - (off - offsets f ! index))
                    (of_nat (length p))) = int c"
    using chunk_sint [OF ok i off lt lp] c by simp
  have cl: "c \<le> length p" using c by simp
  have ov: "overwrite d (take c p) @ drop c p = d @ drop c p"
    using d cl by (simp add: overwrite_def)
  show ?thesis
    using pne i store_ok_entry(1) [OF ok i] io cl d
    by (subst RawReadAt_loop.simps)
      (simp add: Let_def ch word_sless_alt rd ov del: of_nat_min)
qed

lemma RawWriteAt_loop_full_step:
  assumes ok: "store_ok f" and i: "index < length (offsets f)" and off: "0 \<le> sint off"
    and lp: "length p < 2 ^ 63" and pne: "p \<noteq> []"
    and lt: "sint off < sint (offsets f ! index) + sint (entry_length (files f ! index))"
    and c: "int c = min (sint (offsets f ! index) + sint (entry_length (files f ! index)) - sint off)
                        (int (length p))"
    and wr: "file_WriteAt env hist (entry_file (files f ! index)) (take c p) (off - offsets f ! index) =
               (int c, None)"
  shows "RawWriteAt_loop env f p off index n hist =
         RawWriteAt_loop env f (drop c p) (off + of_int (int c)) (Suc index) (n + int c)
           (hist @ [FileWriteAt (entry_file (files f ! index)) (take c p) (off - offsets f ! index)])"
proof -
  have io: "off - offsets f ! index <s entry_length (files f ! index)"
    using lt by (simp add: word_sless_alt itemOffset_sint [OF ok i off])
  have ch: "sint (clamp (entry_length (files f ! index) - (off - offsets f ! index))
                    (of_nat (length p))) = int c"
    using chunk_sint [OF ok i off lt lp] c by simp
  have cl: "c \<le> length p" using c by simp
  show ?thesis
    using pne i store_ok_entry(1) [OF ok i] io cl
    by (subst RawWriteAt_loop.simps)
      (simp add: Let_def ch word_sless_alt wr del: of_nat_min)
qed

text \<open>The two entries a request spans, and where the walk starts.\<close>

lemma span_facts:
  assumes ok: "store_ok f" and i: "Suc i < length (offsets f)"
    and inA: "sint (offsets f ! i) \<le> sint off" "sint off < sint (offsets f ! Suc i)"
    and endB: "sint (offsets f ! Suc i) < sint off + int (length p)"
      "sint off + int (length p) \<le> sint (offsets f ! Suc i) + sint (entry_length (files f ! Suc i))"
    and c1: "c1 = nat (sint (offsets f ! Suc i) - sint off)"
  shows "find_store f off = i"
    and "0 \<le> sint off" and "length p < 2 ^ 63" and "0 < c1" and "c1 < length p"
    and "int c1 = min (sint (offsets f ! i) + sint (entry_length (files f ! i)) - sint off)
                      (int (length p))"
    and "off + of_nat c1 = offsets f ! Suc i"
    and "int (length p - c1) =
           min (sint (offsets f ! Suc i) + sint (entry_length (files f ! Suc i)) - sint (offsets f ! Suc i))
               (int (length (drop c1 p)))"
proof -
  have i0: "i < length (offsets f)" using i by simp
  note a = store_ok_entry [OF ok i0] and b = store_ok_entry [OF ok i]
  note nx = store_ok_next [OF ok i]
  show off: "0 \<le> sint off" using a(3) inA(1) by simp
  have lpi: "int (length p) < 2 ^ 63" using endB(2) b(5,6) off by simp
  then show lp: "length p < 2 ^ 63" by (simp add: of_nat_less_numeral_power_cancel_iff)
  show "0 < c1" "c1 < length p" using c1 inA(2) endB(1) by simp_all
  show "int c1 = min (sint (offsets f ! i) + sint (entry_length (files f ! i)) - sint off)
                      (int (length p))"
    using c1 inA(2) endB(1) nx by simp
  have "sint (off + of_int (int c1)) = sint off + int c1"
    using c1 inA(2) nx by (intro advance_sint [OF ok i0 off]) simp_all
  then have "sint (off + of_int (int c1)) = sint (offsets f ! Suc i)"
    using c1 inA(2) by simp
  then have "off + of_int (int c1) = offsets f ! Suc i"
    by (rule signed_word_eqI)
  then show "off + of_nat c1 = offsets f ! Suc i"
    by simp
  show "int (length p - c1) =
           min (sint (offsets f ! Suc i) + sint (entry_length (files f ! Suc i)) - sint (offsets f ! Suc i))
               (int (length (drop c1 p)))"
    using c1 inA(2) endB by simp
  show "find_store f off = i"
  proof (rule find_store_eq [OF store_ok_sorted [OF ok] i0 _ inA(1)])
    have "offsets f \<noteq> []" using i0 by auto
    then have "sint (offsets f ! 0) = 0" by (rule store_ok_first [OF ok])
    then show "sint (offsets f ! 0) \<le> sint off" using off by simp
    fix j assume j: "i < j" "j < length (offsets f)"
    then have "sint (offsets f ! Suc i) \<le> sint (offsets f ! j)"
      using store_ok_sorted [OF ok] by (simp add: sorted_iff_nth_mono)
    with inA(2) show "sint off < sint (offsets f ! j)" by simp
  qed
qed

subsection \<open>Raw access returns\<close>

text \<open>
  On a well-formed store, with handles that return counts within the slice, for a flat
  offset that is not negative and a buffer of a length Go allows, the walk never
  panics: the flat offset stays between 0 and the end of the store, and every slice
  expression is in range.
\<close>

lemma writes_in_boundsD:
  assumes "writes_in_bounds env" and "file_WriteAt env hist h d off = (n, err)"
  shows "0 \<le> n \<and> n \<le> int (length d)"
proof -
  have "case file_WriteAt env hist h d off of (n, err) \<Rightarrow> 0 \<le> n \<and> n \<le> int (length d)"
    by (rule assms(1) [unfolded writes_in_bounds_def, THEN spec, THEN spec, THEN spec, THEN spec])
  with assms(2) show ?thesis by simp
qed

lemma reads_in_boundsD:
  assumes "reads_in_bounds env" and "file_ReadAt env hist h len off = (d, n, err)"
  shows "0 \<le> n \<and> n \<le> int len"
proof -
  have "case file_ReadAt env hist h len off of (d, n, err) \<Rightarrow> 0 \<le> n \<and> n \<le> int len"
    by (rule assms(1) [unfolded reads_in_bounds_def, THEN spec, THEN spec, THEN spec, THEN spec])
  with assms(2) show ?thesis by simp
qed

lemma RawWriteAt_loop_returns:
  assumes ok: "store_ok f" and wb: "writes_in_bounds env"
  shows "0 \<le> sint off \<Longrightarrow> length p < 2 ^ 63 \<Longrightarrow>
         \<exists>r hist'. RawWriteAt_loop env f p off index n hist = (Inr r, hist')"
proof (induction "length (offsets f) - index" arbitrary: index p off n hist)
  case 0
  then show ?case by (subst RawWriteAt_loop.simps) simp
next
  case (Suc k)
  then have k: "k = length (offsets f) - Suc index" and i: "index < length (offsets f)"
    by simp_all
  note fi = store_ok_entry(1) [OF ok i]
  show ?case
  proof (cases "p = []")
    case True
    then show ?thesis by (subst RawWriteAt_loop.simps) simp
  next
    case pne: False
    show ?thesis
    proof (cases "off - offsets f ! index <s entry_length (files f ! index)")
      case False
      with pne i fi have "RawWriteAt_loop env f p off index n hist =
                          RawWriteAt_loop env f p off (Suc index) n hist"
        by (subst RawWriteAt_loop.simps) (simp add: Let_def)
      with Suc.hyps(1) [OF k Suc.prems] show ?thesis by simp
    next
      case True
      define io where "io = off - offsets f ! index"
      define chunk where "chunk = clamp (entry_length (files f ! index) - io) (of_nat (length p))"
      define c where "c = nat (sint chunk)"
      have lt: "sint off < sint (offsets f ! index) + sint (entry_length (files f ! index))"
        using True by (simp add: word_sless_alt itemOffset_sint [OF ok i Suc.prems(1)])
      have ch: "sint chunk = min (sint (offsets f ! index) + sint (entry_length (files f ! index)) - sint off)
                                 (int (length p))"
        unfolding chunk_def io_def by (rule chunk_sint [OF ok i Suc.prems(1) lt Suc.prems(2)])
      have cpos: "0 < sint chunk" "sint chunk \<le> int (length p)" "int c = sint chunk"
        using ch lt pne by (simp_all add: c_def)
      obtain nT err where w: "file_WriteAt env hist (entry_file (files f ! index)) (take c p) io = (nT, err)"
        by (cases "file_WriteAt env hist (entry_file (files f ! index)) (take c p) io") auto
      have nT: "0 \<le> nT" "nT \<le> int c"
        using writes_in_boundsD [OF wb w] cpos by simp_all
      show ?thesis
      proof (cases err)
        case (Some e)
        with pne i fi True cpos w show ?thesis
          by (subst RawWriteAt_loop.simps)
            (simp add: Let_def io_def [symmetric] chunk_def [symmetric] c_def [symmetric]
              word_sless_alt)
      next
        case None
        have adv: "sint (off + of_int nT) = sint off + nT"
          using nT cpos ch by (intro advance_sint [OF ok i Suc.prems(1)]) simp_all
        have "RawWriteAt_loop env f p off index n hist =
              RawWriteAt_loop env f (drop (nat nT) p) (off + of_int nT) (Suc index) (n + nT)
                (hist @ [FileWriteAt (entry_file (files f ! index)) (take c p) io])"
          using pne i fi True cpos w None nT
          by (subst RawWriteAt_loop.simps)
            (simp add: Let_def io_def [symmetric] chunk_def [symmetric] c_def [symmetric]
              word_sless_alt)
        moreover have "\<exists>r hist'. RawWriteAt_loop env f (drop (nat nT) p) (off + of_int nT) (Suc index)
                (n + nT) (hist @ [FileWriteAt (entry_file (files f ! index)) (take c p) io]) =
                (Inr r, hist')"
          using nT Suc.prems by (intro Suc.hyps(1) [OF k]) (simp_all add: adv)
        ultimately show ?thesis by simp
      qed
    qed
  qed
qed

lemma RawReadAt_loop_returns:
  assumes ok: "store_ok f" and rb: "reads_in_bounds env"
  shows "0 \<le> sint off \<Longrightarrow> length p < 2 ^ 63 \<Longrightarrow>
         \<exists>r hist'. RawReadAt_loop env f filled p off index n hist = (Inr r, hist')"
proof (induction "length (offsets f) - index" arbitrary: index filled p off n hist)
  case 0
  then show ?case by (subst RawReadAt_loop.simps) simp
next
  case (Suc k)
  then have k: "k = length (offsets f) - Suc index" and i: "index < length (offsets f)"
    by simp_all
  note fi = store_ok_entry(1) [OF ok i]
  show ?case
  proof (cases "p = []")
    case True
    then show ?thesis by (subst RawReadAt_loop.simps) simp
  next
    case pne: False
    show ?thesis
    proof (cases "off - offsets f ! index <s entry_length (files f ! index)")
      case False
      with pne i fi have "RawReadAt_loop env f filled p off index n hist =
                          RawReadAt_loop env f filled p off (Suc index) n hist"
        by (subst RawReadAt_loop.simps) (simp add: Let_def)
      with Suc.hyps(1) [OF k Suc.prems] show ?thesis by simp
    next
      case True
      define io where "io = off - offsets f ! index"
      define chunk where "chunk = clamp (entry_length (files f ! index) - io) (of_nat (length p))"
      define c where "c = nat (sint chunk)"
      have lt: "sint off < sint (offsets f ! index) + sint (entry_length (files f ! index))"
        using True by (simp add: word_sless_alt itemOffset_sint [OF ok i Suc.prems(1)])
      have ch: "sint chunk = min (sint (offsets f ! index) + sint (entry_length (files f ! index)) - sint off)
                                 (int (length p))"
        unfolding chunk_def io_def by (rule chunk_sint [OF ok i Suc.prems(1) lt Suc.prems(2)])
      have cpos: "0 < sint chunk" "sint chunk \<le> int (length p)" "int c = sint chunk"
        using ch lt pne by (simp_all add: c_def)
      obtain d nT err where r: "file_ReadAt env hist (entry_file (files f ! index)) c io = (d, nT, err)"
        by (cases "file_ReadAt env hist (entry_file (files f ! index)) c io") auto
      have nT: "0 \<le> nT" "nT \<le> int c"
        using reads_in_boundsD [OF rb r] by simp_all
      define p' where "p' = overwrite d (take c p) @ drop c p"
      have lp': "length p' = length p"
        using cpos by (simp add: p'_def overwrite_def)
      show ?thesis
      proof (cases err)
        case (Some e)
        with pne i fi True cpos r show ?thesis
          by (subst RawReadAt_loop.simps)
            (simp add: Let_def io_def [symmetric] chunk_def [symmetric] c_def [symmetric]
              word_sless_alt)
      next
        case None
        have adv: "sint (off + of_int nT) = sint off + nT"
          using nT cpos ch by (intro advance_sint [OF ok i Suc.prems(1)]) simp_all
        have "RawReadAt_loop env f filled p off index n hist =
              RawReadAt_loop env f (filled @ take (nat nT) p') (drop (nat nT) p') (off + of_int nT)
                (Suc index) (n + nT)
                (hist @ [FileReadAt (entry_file (files f ! index)) c io])"
          using pne i fi True cpos r None nT lp'
          by (subst RawReadAt_loop.simps)
            (simp add: Let_def io_def [symmetric] chunk_def [symmetric] c_def [symmetric]
              p'_def [symmetric] word_sless_alt)
        moreover have "\<exists>r hist'. RawReadAt_loop env f (filled @ take (nat nT) p') (drop (nat nT) p')
                (off + of_int nT) (Suc index) (n + nT)
                (hist @ [FileReadAt (entry_file (files f ! index)) c io]) = (Inr r, hist')"
          using nT Suc.prems lp' by (intro Suc.hyps(1) [OF k]) (simp_all add: adv)
        ultimately show ?thesis by simp
      qed
    qed
  qed
qed

lemma RawWriteAt_returns:
  assumes "store_ok f" and "writes_in_bounds env" and "0 \<le> sint off" and "length p < 2 ^ 63"
  shows "\<exists>r hist'. RawWriteAt env f p off hist = (Inr r, hist')"
  unfolding RawWriteAt_def by (rule RawWriteAt_loop_returns [OF assms])

lemma RawReadAt_returns:
  assumes "store_ok f" and "reads_in_bounds env" and "0 \<le> sint off" and "length p < 2 ^ 63"
  shows "\<exists>r hist'. RawReadAt env f p off hist = (Inr r, hist')"
  unfolding RawReadAt_def by (rule RawReadAt_loop_returns [OF assms])

subsection \<open>The loops over the ranges of the cache\<close>

lemma length_raw_reads [simp]: "length (raw_reads env f unf hist) = length unf"
  by (induction unf arbitrary: hist) (simp_all add: Let_def)

lemma length_raw_writes [simp]: "length (raw_writes env f ncs hist) = length ncs"
  by (induction ncs arbitrary: hist) (simp_all add: Let_def)

text \<open>When no raw write panics, the loop runs to its end and returns.\<close>

lemma WriteAt_loop_eq:
  "map fst (raw_writes env f ncs hist) = map Inr rs \<Longrightarrow>
   WriteAt_loop env f ncs hist = (Inr (), last (hist # map snd (raw_writes env f ncs hist)))"
proof (induction ncs arbitrary: hist rs)
  case Nil
  then show ?case by simp
next
  case (Cons nc ncs)
  obtain o1 h1 where w: "RawWriteAt env f (chunk_data nc) (chunk_i nc) hist = (o1, h1)"
    by (cases "RawWriteAt env f (chunk_data nc) (chunk_i nc) hist") auto
  from Cons.prems obtain r rs' where rs: "rs = r # rs'" "o1 = Inr r"
    "map fst (raw_writes env f ncs h1) = map Inr rs'"
    by (cases rs) (auto simp: w Let_def)
  from Cons.IH [OF rs(3)] show ?case
    by (simp add: w rs(2) Let_def)
qed

lemma raw_writes_return:
  assumes ok: "store_ok f" and wb: "writes_in_bounds env"
  shows "list_all chunk_ok ncs \<Longrightarrow> \<exists>rs. map fst (raw_writes env f ncs hist) = map Inr rs"
proof (induction ncs arbitrary: hist)
  case Nil
  then show ?case by simp
next
  case (Cons nc ncs)
  then have "0 \<le> sint (chunk_i nc)" "length (chunk_data nc) < 2 ^ 63"
    by (simp_all add: chunk_ok_def)
  from RawWriteAt_returns [OF ok wb this]
  obtain r h1 where w: "RawWriteAt env f (chunk_data nc) (chunk_i nc) hist = (Inr r, h1)"
    by blast
  from Cons.prems have "list_all chunk_ok ncs" by simp
  from Cons.IH [OF this, of h1] obtain rs where "map fst (raw_writes env f ncs h1) = map Inr rs"
    by blast
  then have "map fst (raw_writes env f (nc # ncs) hist) = map Inr (r # rs)"
    by (simp add: w Let_def)
  then show ?case by blast
qed

text \<open>
  When no raw read panics, the loop runs to its end; its error is the one it started
  with unless a raw read returned one, and then the last of these.
\<close>

lemma ReadAt_loop_eq:
  "map fst (raw_reads env f unf hist) = map Inr rs \<Longrightarrow>
   ReadAt_loop env f unf retErr acc hist =
     (Inr (last (retErr # filter (\<lambda>e. e \<noteq> None) (map (\<lambda>r. fst (snd r)) rs)),
           acc @ map2 (\<lambda>u r. u\<lparr>chunk_data := snd (snd r)\<rparr>) unf rs),
      last (hist # map snd (raw_reads env f unf hist)))"
proof (induction unf arbitrary: retErr acc hist rs)
  case Nil
  then show ?case by simp
next
  case (Cons u us)
  obtain o1 h1 where r: "RawReadAt env f (chunk_data u) (chunk_i u) hist = (o1, h1)"
    by (cases "RawReadAt env f (chunk_data u) (chunk_i u) hist") auto
  from Cons.prems obtain n err data' rs' where rs: "rs = (n, err, data') # rs'"
    "o1 = Inr (n, err, data')" "map fst (raw_reads env f us h1) = map Inr rs'"
    by (cases rs) (auto simp: r Let_def)
  from Cons.IH [OF rs(3), of "if err \<noteq> None then err else retErr" "acc @ [u\<lparr>chunk_data := data'\<rparr>]"]
  show ?case
    by (simp add: r rs(1,2) Let_def)
qed

lemma raw_reads_return:
  assumes ok: "store_ok f" and rb: "reads_in_bounds env"
  shows "list_all chunk_ok unf \<Longrightarrow> \<exists>rs. map fst (raw_reads env f unf hist) = map Inr rs"
proof (induction unf arbitrary: hist)
  case Nil
  then show ?case by simp
next
  case (Cons u us)
  then have "0 \<le> sint (chunk_i u)" "length (chunk_data u) < 2 ^ 63"
    by (simp_all add: chunk_ok_def)
  from RawReadAt_returns [OF ok rb this]
  obtain r h1 where w: "RawReadAt env f (chunk_data u) (chunk_i u) hist = (Inr r, h1)"
    by blast
  from Cons.prems have "list_all chunk_ok us" by simp
  from Cons.IH [OF this, of h1] obtain rs where "map fst (raw_reads env f us h1) = map Inr rs"
    by blast
  then have "map fst (raw_reads env f (u # us) hist) = map Inr (r # rs)"
    by (simp add: w Let_def)
  then show ?case by blast
qed

subsection \<open>Evaluating the examples\<close>

lemmas double_defs =
  double_def double_ReadAt_def double_WriteAt_def double_Open_def disk46_def store46_def
  info46_def info_single_def declared_files_def opens_def overwrite_def clamp_def
  double_split_def word_sless_alt
  SetCache_def Let_def

lemmas example_defs =
  RawReadAt_def RawWriteAt_def find_store_def find_loop.simps RawReadAt_loop.simps
  RawWriteAt_loop.simps trailing_loop.simps NewFileStore_def double_defs

lemma store_ok_store46: "store_ok store46"
  by (simp add: store_ok_def store46_def lengths_def totalSize_def)

lemma totalSize_store46: "totalSize store46 = 10"
  by (simp add: store46_def lengths_def totalSize_def)

section \<open>The claims\<close>

text \<open>
  C1. The claim: a raw read fills the whole buffer, with zeros beyond the end of the
  store, and without a handle error it returns no error and the length of the buffer as
  its count. The buffer and the error are as claimed, the count is not: \<open>RawReadAt\<close>
  adds up only what the handles returned and leaves out the bytes it fills with zeros
  (its sibling \<open>RawWriteAt\<close> ends with \<open>n = n + len(p)\<close>). On the store of two
  files of 4 and 6 bytes, a read of 3 bytes at offset 10 returns the count 0, and a read
  of 3 bytes at offset 9 returns the count 1.
\<close>

theorem RawReadAt_count_leaves_out_zero_fill:
  "RawReadAt (double disk46 None []) store46 [1, 1, 1] 10 [] = (Inr (0, None, [0, 0, 0]), []) \<and>
   RawReadAt (double disk46 None []) store46 [1, 1, 1] 9 [] =
     (Inr (1, None, [25, 0, 0]), [FileReadAt 1 1 5])"
  by (simp add: example_defs)

text \<open>
  C2. For every flat offset at or past the end of a well-formed store, a raw write of a
  buffer of zeros returns the length of the buffer and no error; a raw write of a
  buffer with a byte that is not zero returns the number of bytes before the first such
  byte and the error made by \<open>errors.New\<close>. No handle is called either way.
\<close>

theorem RawWriteAt_past_end:
  assumes "store_ok f" and "totalSize f \<le> sint off"
  shows "(list_all (\<lambda>b. b = 0) p \<longrightarrow>
            RawWriteAt env f p off hist = (Inr (int (length p), None), hist)) \<and>
         (\<not> list_all (\<lambda>b. b = 0) p \<longrightarrow>
            RawWriteAt env f p off hist =
              (Inr (int (length (takeWhile (\<lambda>b. b = 0) p)),
                    Some (ErrorsNew ''Unexpected non-zero data at end of store.'')), hist))"
  using RawWriteAt_loop_past_end [OF assms, of env p 0 hist]
  by (simp add: RawWriteAt_def find_store_past_end [OF assms] trailing_loop_eq)

theorem RawWriteAt_past_end_witness:
  "store_ok store46 \<and> totalSize store46 \<le> sint (12 :: int64) \<and>
   RawWriteAt (double disk46 None []) store46 [0, 0, 0, 0] 12 [] = (Inr (4, None), []) \<and>
   RawWriteAt (double disk46 None []) store46 [0, 0, 7, 0] 12 [] =
     (Inr (2, Some (ErrorsNew ''Unexpected non-zero data at end of store.'')), [])"
proof -
  have ok: "store_ok store46" by (rule store_ok_store46)
  have past: "totalSize store46 \<le> sint (12 :: int64)" by (simp add: totalSize_store46)
  show ?thesis
    using ok past
      RawWriteAt_past_end [OF ok past, of "[0, 0, 0, 0]" "double disk46 None []" "[]"]
      RawWriteAt_past_end [OF ok past, of "[0, 0, 7, 0]" "double disk46 None []" "[]"]
    by simp
qed

text \<open>
  C3. On a table that is not empty, sorted and starting at 0, and for a flat offset
  that is not negative, \<open>find\<close> returns the index of the last entry whose start
  offset is at most the offset: an index of the table, whose start is at most the
  offset, with every later start above the offset. On a table of one entry this is
  index 0, and for an offset at or past the end of a well-formed store the last index.
\<close>

theorem find_returns_last_entry:
  assumes "offsets f \<noteq> []" and "sorted (map sint (offsets f))"
    and "sint (offsets f ! 0) = 0" and "0 \<le> sint off"
  shows "find_store f off < length (offsets f) \<and>
         sint (offsets f ! find_store f off) \<le> sint off \<and>
         (\<forall>j. find_store f off < j \<and> j < length (offsets f) \<longrightarrow> sint off < sint (offsets f ! j)) \<and>
         (length (offsets f) = 1 \<longrightarrow> find_store f off = 0) \<and>
         (store_ok f \<and> totalSize f \<le> sint off \<longrightarrow> find_store f off = length (offsets f) - 1)"
proof -
  have z: "sint (offsets f ! 0) \<le> sint off" using assms(3,4) by simp
  note fs = find_store_last [OF assms(2) assms(1) z]
  from fs(1) have "length (offsets f) = 1 \<longrightarrow> find_store f off = 0" by auto
  with fs show ?thesis by (auto simp: find_store_past_end)
qed

theorem find_returns_last_entry_witness:
  "offsets store46 \<noteq> [] \<and> sorted (map sint (offsets store46)) \<and>
   sint (offsets store46 ! 0) = 0 \<and> 0 \<le> sint (5 :: int64) \<and>
   find_store store46 3 = 0 \<and> find_store store46 5 = 1 \<and> find_store store46 4 = 1 \<and>
   find_store store46 10 = 1 \<and>
   sint (offsets store46 ! find_store store46 5) \<le> sint (5 :: int64)"
proof -
  have a: "offsets store46 \<noteq> []" "sorted (map sint (offsets store46))"
    "sint (offsets store46 ! 0) = 0" "0 \<le> sint (5 :: int64)"
    by (simp_all add: store46_def)
  have "find_store store46 3 = 0 \<and> find_store store46 5 = 1 \<and> find_store store46 4 = 1 \<and>
        find_store store46 10 = 1"
    by (simp add: example_defs)
  then show ?thesis
    using a find_returns_last_entry [OF a] by simp
qed

text \<open>
  C10. \<open>Close\<close> closes the handle of every entry once, first to last, then closes the
  cache if one is attached and detaches it, and returns no error whatever the
  collaborators answer: the errors of their \<open>Close\<close> calls are dropped.
\<close>

theorem Close_closes_every_handle_once:
  "Close f hist =
     (None, f\<lparr>cache := None\<rparr>,
      hist @ map (\<lambda>e. FileClose (entry_file e)) (files f) @
        (case cache f of None \<Rightarrow> [] | Some c \<Rightarrow> [CacheClose c]))"
  by (cases f) (simp add: Close_def Close_loop_eq split: option.split)

text \<open>
  C5. If, of the files \<open>NewFileStore\<close> runs over, the first \<open>K\<close> open with the
  handles \<open>hs\<close> and the open of file \<open>K\<close> fails with \<open>e\<close>, then \<open>NewFileStore\<close>
  returns no store and the error \<open>e\<close>, and after the \<open>K + 1\<close> opens it closes exactly
  the handles \<open>hs\<close>, each once; no further file is opened.
\<close>

theorem NewFileStore_open_failure:
  assumes "length hs = K" and "K < length (declared_files info)"
    and "\<forall>i<K. fs_Open env (hist @ opens fsys (take i (declared_files info)) (take i hs)) fsys
                 (fd_Path (declared_files info ! i)) (fd_Length (declared_files info ! i)) = Inr (hs ! i)"
    and "fs_Open env (hist @ opens fsys (take K (declared_files info)) hs) fsys
           (fd_Path (declared_files info ! K)) (fd_Length (declared_files info ! K)) = Inl e"
  shows "NewFileStore env info fsys hist =
           ((None, sum_list (map fd_Length (take K (declared_files info))), Some e),
            hist @ opens fsys (take K (declared_files info)) hs @
              [FsOpen fsys (fd_Path (declared_files info ! K))
                 (fd_Length (declared_files info ! K)) (Inl e)] @
              map FileClose hs)"
  using NewFileStore_loop_fails_at [OF assms(1,2) _ assms(4), of "[]" "[]" 0] assms(3)
  by (simp add: NewFileStore_def)

theorem NewFileStore_open_failure_witness:
  "NewFileStore (double disk46 None []) info46 0 [] =
     ((Some store46, 10, None), [FsOpen 0 [''a''] 4 (Inr 0), FsOpen 0 [''b''] 6 (Inr 1)]) \<and>
   NewFileStore (double disk46 (Some 1) []) info46 0 [] =
     ((None, 4, Some (ExternalError ''open failed'')),
      [FsOpen 0 [''a''] 4 (Inr 0), FsOpen 0 [''b''] 6 (Inl (ExternalError ''open failed'')),
       FileClose 0])"
proof -
  have "NewFileStore (double disk46 None []) info46 0 [] =
     ((Some store46, 10, None), [FsOpen 0 [''a''] 4 (Inr 0), FsOpen 0 [''b''] 6 (Inr 1)])"
    by (simp add: example_defs)
  moreover have "NewFileStore (double disk46 (Some 1) []) info46 0 [] =
     ((None, 4, Some (ExternalError ''open failed'')),
      [FsOpen 0 [''a''] 4 (Inr 0), FsOpen 0 [''b''] 6 (Inl (ExternalError ''open failed'')),
       FileClose 0])"
    using NewFileStore_open_failure [of "[0]" 1 info46 "double disk46 (Some 1) []" "[]" 0
        "ExternalError ''open failed''"]
    by (simp add: double_defs)
  ultimately show ?thesis by simp
qed




text \<open>
  C7. Without a cache \<open>Commit\<close> does nothing. With a cache it makes one raw write of
  the piece at the flat offset, which adds file writes to the history and nothing
  else, so no call of the cache's \<open>WriteAt\<close>; when that raw write returns no error,
  one \<open>MarkCommitted\<close> of the piece number follows; when it returns an error,
  \<open>Commit\<close> panics and \<open>MarkCommitted\<close> is not called. (A panic inside the raw
  write is a panic of \<open>Commit\<close>.)
\<close>

theorem Commit_contract:
  "(cache f = None \<longrightarrow> Commit env f pieceNum piece off hist = (Inr (), hist)) \<and>
   (\<forall>c. cache f = Some c \<longrightarrow>
      (\<exists>ws. list_all is_file_write ws \<and>
         snd (RawWriteAt env f piece off hist) = hist @ ws \<and>
         Commit env f pieceNum piece off hist =
           (case fst (RawWriteAt env f piece off hist) of
              Inl pn \<Rightarrow> (Inl pn, hist @ ws)
            | Inr (n, Some err) \<Rightarrow> (Inl (LogPanicln ''Error committing to storage:'' err), hist @ ws)
            | Inr (n, None) \<Rightarrow> (Inr (), hist @ ws @ [CacheMarkCommitted c pieceNum]))))"
proof -
  obtain ws where ws: "snd (RawWriteAt env f piece off hist) = hist @ ws" "list_all is_file_write ws"
    using RawWriteAt_events by blast
  have "Commit env f pieceNum piece off hist =
           (case fst (RawWriteAt env f piece off hist) of
              Inl pn \<Rightarrow> (Inl pn, hist @ ws)
            | Inr (n, Some err) \<Rightarrow> (Inl (LogPanicln ''Error committing to storage:'' err), hist @ ws)
            | Inr (n, None) \<Rightarrow> (Inr (), hist @ ws @ [CacheMarkCommitted c pieceNum]))"
    if "cache f = Some c" for c
    using that ws(1)
    by (cases "RawWriteAt env f piece off hist")
      (auto simp: Commit_def split: sum.splits option.splits prod.splits)
  with ws show ?thesis
    by (auto simp: Commit_def)
qed

theorem Commit_contract_witness:
  "cache (SetCache store46 (Some 7)) = Some 7 \<and> cache store46 = None \<and>
   Commit (double disk46 None []) store46 5 [1, 2, 3] 3 [] = (Inr (), []) \<and>
   Commit (double disk46 None []) (SetCache store46 (Some 7)) 5 [1, 2, 3] 3 [] =
     (Inr (), [FileWriteAt 0 [1] 3, FileWriteAt 1 [2, 3] 0, CacheMarkCommitted 7 5]) \<and>
   Commit (double disk46 None [0]) (SetCache store46 (Some 7)) 5 [1, 2, 3] 3 [] =
     (Inl (LogPanicln ''Error committing to storage:'' (ExternalError ''write failed'')),
      [FileWriteAt 0 [1] 3])"
proof -
  have w1: "RawWriteAt (double disk46 None []) (SetCache store46 (Some 7)) [1, 2, 3] 3 [] =
          (Inr (3, None), [FileWriteAt 0 [1] 3, FileWriteAt 1 [2, 3] 0])"
    by (simp add: example_defs)
  have w2: "RawWriteAt (double disk46 None [0]) (SetCache store46 (Some 7)) [1, 2, 3] 3 [] =
          (Inr (0, Some (ExternalError ''write failed'')), [FileWriteAt 0 [1] 3])"
    by (simp add: example_defs)
  have c: "cache (SetCache store46 (Some 7)) = Some 7" "cache store46 = None"
    by (simp_all add: SetCache_def store46_def)
  show ?thesis
    using c
      Commit_contract [of store46 "double disk46 None []" 5 "[1, 2, 3]" 3 "[]"]
      Commit_contract [of "SetCache store46 (Some 7)" "double disk46 None []" 5 "[1, 2, 3]" 3 "[]"]
      Commit_contract [of "SetCache store46 (Some 7)" "double disk46 None [0]" 5 "[1, 2, 3]" 3 "[]"]
    by (auto simp: w1 w2)
qed

text \<open>
  C4. A raw read or write whose range begins inside entry \<open>i\<close> and ends inside
  entry \<open>i + 1\<close> of a well-formed store is split at the boundary. The first \<open>c1\<close>
  bytes, up to the end of the first file, are transferred with its handle at the local
  offset \<open>loc\<close>, the flat offset less the start of the entry; the rest is transferred
  with the handle of the next file at local offset 0. When both handles transfer all
  they are asked for, without error, these are the only calls; a read returns the
  bytes of the first call followed by the bytes of the second, and both return the
  length of the buffer and no error.
\<close>

theorem raw_access_spans_boundary:
  assumes ok: "store_ok f" and i: "Suc i < length (offsets f)"
    and A: "A = entry_file (files f ! i)" and B: "B = entry_file (files f ! Suc i)"
    and inA: "sint (offsets f ! i) \<le> sint off" "sint off < sint (offsets f ! Suc i)"
    and endB: "sint (offsets f ! Suc i) < sint off + int (length p)"
      "sint off + int (length p) \<le> sint (offsets f ! Suc i) + sint (entry_length (files f ! Suc i))"
    and c1: "c1 = nat (sint (offsets f ! Suc i) - sint off)"
    and loc: "loc = off - offsets f ! i"
  shows "sint loc = sint off - sint (offsets f ! i) \<and> 0 < c1 \<and> c1 < length p \<and>
         (\<forall>d1 d2.
            file_ReadAt env hist A c1 loc = (d1, int c1, None) \<and> length d1 = c1 \<and>
            file_ReadAt env (hist @ [FileReadAt A c1 loc]) B (length p - c1) 0 =
              (d2, int (length p - c1), None) \<and> length d2 = length p - c1 \<longrightarrow>
            RawReadAt env f p off hist =
              (Inr (int (length p), None, d1 @ d2),
               hist @ [FileReadAt A c1 loc, FileReadAt B (length p - c1) 0])) \<and>
         (file_WriteAt env hist A (take c1 p) loc = (int c1, None) \<and>
          file_WriteAt env (hist @ [FileWriteAt A (take c1 p) loc]) B (drop c1 p) 0 =
            (int (length p - c1), None) \<longrightarrow>
          RawWriteAt env f p off hist =
            (Inr (int (length p), None),
             hist @ [FileWriteAt A (take c1 p) loc, FileWriteAt B (drop c1 p) 0]))"
proof -
  have i0: "i < length (offsets f)" using i by simp
  note s = span_facts [OF ok i inA endB c1]
  have pne: "p \<noteq> []" "drop c1 p \<noteq> []" using s(4,5) by auto
  have ltA: "sint off < sint (offsets f ! i) + sint (entry_length (files f ! i))"
    using inA(2) store_ok_next [OF ok i] by simp
  have offB: "0 \<le> sint (offsets f ! Suc i)"
    by (rule store_ok_entry(3) [OF ok i])
  have ltB: "sint (offsets f ! Suc i) <
             sint (offsets f ! Suc i) + sint (entry_length (files f ! Suc i))"
    using endB by simp
  have lpB: "length (drop c1 p) < 2 ^ 63" using s(3) by simp
  have c2: "length p - c1 + c1 = length p" "int c1 + int (length p - c1) = int (length p)"
    using s(5) by simp_all
  have rd: "RawReadAt env f p off hist =
              (Inr (int (length p), None, d1 @ d2),
               hist @ [FileReadAt A c1 loc, FileReadAt B (length p - c1) 0])"
    if r1: "file_ReadAt env hist A c1 loc = (d1, int c1, None)" and l1: "length d1 = c1"
      and r2: "file_ReadAt env (hist @ [FileReadAt A c1 loc]) B (length p - c1) 0 =
                 (d2, int (length p - c1), None)" and l2: "length d2 = length p - c1"
    for d1 d2
  proof -
    have "RawReadAt env f p off hist = RawReadAt_loop env f [] p off i 0 hist"
      by (simp add: RawReadAt_def s(1))
    also have "\<dots> = RawReadAt_loop env f d1 (drop c1 p) (offsets f ! Suc i) (Suc i) (int c1)
                       (hist @ [FileReadAt A c1 loc])"
      using RawReadAt_loop_full_step [OF ok i0 s(2) s(3) pne(1) ltA s(6) r1 [unfolded A loc] l1,
          of "[]" 0]
      by (simp add: s(7) A loc)
    also have "\<dots> = RawReadAt_loop env f (d1 @ d2) (drop (length p - c1) (drop c1 p))
                       (offsets f ! Suc i + of_int (int (length p - c1))) (Suc (Suc i))
                       (int c1 + int (length p - c1))
                       (hist @ [FileReadAt A c1 loc] @ [FileReadAt B (length p - c1) 0])"
      using RawReadAt_loop_full_step [OF ok i offB lpB pne(2) ltB s(8) _ l2,
          of env "hist @ [FileReadAt A c1 loc]" d1 "int c1"] r2
      by (simp add: B)
    also have "\<dots> = (Inr (int (length p), None, d1 @ d2),
                      hist @ [FileReadAt A c1 loc, FileReadAt B (length p - c1) 0])"
      by (subst RawReadAt_loop.simps) (simp add: c2)
    finally show ?thesis .
  qed
  have wr: "RawWriteAt env f p off hist =
            (Inr (int (length p), None),
             hist @ [FileWriteAt A (take c1 p) loc, FileWriteAt B (drop c1 p) 0])"
    if w1: "file_WriteAt env hist A (take c1 p) loc = (int c1, None)"
      and w2: "file_WriteAt env (hist @ [FileWriteAt A (take c1 p) loc]) B (drop c1 p) 0 =
                 (int (length p - c1), None)"
  proof -
    have tk: "take (length p - c1) (drop c1 p) = drop c1 p" by simp
    have "RawWriteAt env f p off hist = RawWriteAt_loop env f p off i 0 hist"
      by (simp add: RawWriteAt_def s(1))
    also have "\<dots> = RawWriteAt_loop env f (drop c1 p) (offsets f ! Suc i) (Suc i) (int c1)
                       (hist @ [FileWriteAt A (take c1 p) loc])"
      using RawWriteAt_loop_full_step [OF ok i0 s(2) s(3) pne(1) ltA s(6) w1 [unfolded A loc], of 0]
      by (simp add: s(7) A loc)
    also have "\<dots> = RawWriteAt_loop env f (drop (length p - c1) (drop c1 p))
                       (offsets f ! Suc i + of_int (int (length p - c1))) (Suc (Suc i))
                       (int c1 + int (length p - c1))
                       (hist @ [FileWriteAt A (take c1 p) loc] @ [FileWriteAt B (drop c1 p) 0])"
      using RawWriteAt_loop_full_step [OF ok i offB lpB pne(2) ltB s(8),
          of env "hist @ [FileWriteAt A (take c1 p) loc]" "int c1"] w2
      by (simp add: B tk)
    also have "\<dots> = (Inr (int (length p), None),
                      hist @ [FileWriteAt A (take c1 p) loc, FileWriteAt B (drop c1 p) 0])"
      by (subst RawWriteAt_loop.simps) (simp add: c2 trailing_loop.simps)
    finally show ?thesis .
  qed
  have "sint loc = sint off - sint (offsets f ! i)"
    unfolding loc by (rule itemOffset_sint [OF ok i0 s(2)])
  with s(4,5) rd wr show ?thesis by blast
qed

theorem raw_access_spans_boundary_witness:
  "store_ok store46 \<and>
   RawReadAt (double disk46 None []) store46 [0, 0, 0] 3 [] =
     (Inr (3, None, [13, 20, 21]), [FileReadAt 0 1 3, FileReadAt 1 2 0]) \<and>
   RawWriteAt (double disk46 None []) store46 [7, 8, 9] 3 [] =
     (Inr (3, None), [FileWriteAt 0 [7] 3, FileWriteAt 1 [8, 9] 0])"
proof -
  have ok: "store_ok store46" by (rule store_ok_store46)
  have r: "RawReadAt (double disk46 None []) store46 [0, 0, 0] 3 [] =
     (Inr (3, None, [13, 20, 21]), [FileReadAt 0 1 3, FileReadAt 1 2 0])"
    using raw_access_spans_boundary [OF ok, of 0 0 1 3 "[0, 0, 0]" 1 3 "double disk46 None []" "[]"]
    by (simp add: double_defs)
  have w: "RawWriteAt (double disk46 None []) store46 [7, 8, 9] 3 [] =
     (Inr (3, None), [FileWriteAt 0 [7] 3, FileWriteAt 1 [8, 9] 0])"
    using raw_access_spans_boundary [OF ok, of 0 0 1 3 "[7, 8, 9]" 1 3 "double disk46 None []" "[]"]
    by (simp add: double_defs)
  from ok r w show ?thesis by simp
qed

text \<open>
  C8. With a cache attached, \<open>WriteAt\<close> calls the cache's \<open>WriteAt\<close> and makes a raw
  write of each range the cache reports. Unless one of these raw writes panics,
  \<open>WriteAt\<close> returns the length of the buffer and no error: what the raw writes
  return, errors included, has no part in the result. On a well-formed store whose
  handles return counts within the slice, and for ranges that a Go program can hold,
  no raw write panics. Without a cache \<open>WriteAt\<close> is \<open>RawWriteAt\<close>.
\<close>

theorem WriteAt_swallows_fallback_errors:
  assumes "ncs = (case cache_WriteAt env hist c p off of None \<Rightarrow> [] | Some ncs \<Rightarrow> ncs)"
    and "outs = raw_writes env f ncs (hist @ [CacheWriteAt c p off])"
  shows "(cache f = Some c \<and> (\<exists>rs. map fst outs = map Inr rs) \<longrightarrow>
            WriteAt env f p off hist =
              (Inr (int (length p), None), last ((hist @ [CacheWriteAt c p off]) # map snd outs))) \<and>
         (store_ok f \<and> writes_in_bounds env \<and> list_all chunk_ok ncs \<longrightarrow>
            (\<exists>rs. map fst outs = map Inr rs)) \<and>
         (cache f = None \<longrightarrow> WriteAt env f p off hist = RawWriteAt env f p off hist)"
proof -
  have "WriteAt env f p off hist =
          (Inr (int (length p), None), last ((hist @ [CacheWriteAt c p off]) # map snd outs))"
    if c: "cache f = Some c" and rs: "map fst outs = map Inr rs" for rs
  proof (cases "cache_WriteAt env hist c p off")
    case None
    with c assms show ?thesis by (simp add: WriteAt_def)
  next
    case (Some ncs')
    with assms(1) have "ncs' = ncs" by simp
    with WriteAt_loop_eq [OF rs [unfolded assms(2)]] c Some show ?thesis
      by (simp add: WriteAt_def assms(2))
  qed
  moreover have "\<exists>rs. map fst outs = map Inr rs"
    if "store_ok f" "writes_in_bounds env" "list_all chunk_ok ncs"
    unfolding assms(2) using that by (rule raw_writes_return)
  ultimately show ?thesis
    by (auto simp: WriteAt_def)
qed

theorem WriteAt_swallows_fallback_errors_witness:
  "store_ok (SetCache store46 (Some 7)) \<and> writes_in_bounds (double disk46 None [0]) \<and>
   raw_writes (double disk46 None [0]) (SetCache store46 (Some 7))
       [\<lparr>chunk_i = 3, chunk_data = [1, 2, 3]\<rparr>] [CacheWriteAt 7 [1, 2, 3] 3] =
     [(Inr (0, Some (ExternalError ''write failed'')),
       [CacheWriteAt 7 [1, 2, 3] 3, FileWriteAt 0 [1] 3])] \<and>
   WriteAt (double disk46 None [0]) (SetCache store46 (Some 7)) [1, 2, 3] 3 [] =
     (Inr (3, None), [CacheWriteAt 7 [1, 2, 3] 3, FileWriteAt 0 [1] 3])"
proof -
  have ok: "store_ok (SetCache store46 (Some 7))"
    by (simp add: store_ok_def store46_def lengths_def totalSize_def SetCache_def)
  have wb: "writes_in_bounds (double disk46 None [0])"
    by (simp add: writes_in_bounds_def double_def double_WriteAt_def)
  have ncs: "[\<lparr>chunk_i = 3, chunk_data = [1, 2, 3]\<rparr>] =
             (case cache_WriteAt (double disk46 None [0]) [] 7 [1, 2, 3] 3 of
                None \<Rightarrow> [] | Some ncs \<Rightarrow> ncs)"
    by (simp add: double_def)
  have h: "[] @ [CacheWriteAt 7 [1, 2, 3] 3] = [CacheWriteAt 7 [1, 2, 3] 3]"
    by simp
  have outs: "raw_writes (double disk46 None [0]) (SetCache store46 (Some 7))
       [\<lparr>chunk_i = 3, chunk_data = [1, 2, 3]\<rparr>] [CacheWriteAt 7 [1, 2, 3] 3] =
     [(Inr (0, Some (ExternalError ''write failed'')),
       [CacheWriteAt 7 [1, 2, 3] 3, FileWriteAt 0 [1] 3])]"
    by (simp add: example_defs)
  have ck: "list_all chunk_ok [\<lparr>chunk_i = 3, chunk_data = [1, 2, 3]\<rparr>]"
    by (simp add: chunk_ok_def)
  have c: "cache (SetCache store46 (Some 7)) = Some 7"
    by (simp add: SetCache_def)
  from WriteAt_swallows_fallback_errors [OF ncs refl, of "SetCache store46 (Some 7)", unfolded h outs]
    ok wb ck c
  have "WriteAt (double disk46 None [0]) (SetCache store46 (Some 7)) [1, 2, 3] 3 [] =
     (Inr (3, None), [CacheWriteAt 7 [1, 2, 3] 3, FileWriteAt 0 [1] 3])"
    by simp
  with ok wb outs show ?thesis by simp
qed

text \<open>
  C9. With a cache attached, \<open>ReadAt\<close> makes a raw read for every range the cache
  reports as unfulfilled, each from the history the one before left behind, whether or
  not an earlier one returned an error. Unless one of these raw reads panics, it
  returns the length of the buffer, and as its error the last error among the raw
  reads, or none when none of them returned one. On a well-formed store whose handles
  return counts within the slice, and for ranges that a Go program can hold, no raw
  read panics.
\<close>

theorem ReadAt_reads_every_range:
  assumes "cache f = Some c" and "cache_ReadAt env hist c p off = (p', unf)"
    and "outs = raw_reads env f unf (hist @ [CacheReadAt c (length p) off])"
  shows "length outs = length unf \<and>
         (\<forall>rs. map fst outs = map Inr rs \<longrightarrow>
            ReadAt env f p off hist =
              (Inr (int (length p),
                    last (None # filter (\<lambda>e. e \<noteq> None) (map (\<lambda>r. fst (snd r)) rs)),
                    overwrite p' p,
                    map2 (\<lambda>u r. u\<lparr>chunk_data := snd (snd r)\<rparr>) unf rs),
               last ((hist @ [CacheReadAt c (length p) off]) # map snd outs))) \<and>
         (store_ok f \<and> reads_in_bounds env \<and> list_all chunk_ok unf \<longrightarrow>
            (\<exists>rs. map fst outs = map Inr rs))"
proof -
  have "ReadAt env f p off hist =
          (Inr (int (length p),
                last (None # filter (\<lambda>e. e \<noteq> None) (map (\<lambda>r. fst (snd r)) rs)),
                overwrite p' p,
                map2 (\<lambda>u r. u\<lparr>chunk_data := snd (snd r)\<rparr>) unf rs),
           last ((hist @ [CacheReadAt c (length p) off]) # map snd outs))"
    if rs: "map fst outs = map Inr rs" for rs
    using ReadAt_loop_eq [OF rs [unfolded assms(3)], of None "[]"]
    by (simp add: ReadAt_def assms)
  moreover have "\<exists>rs. map fst outs = map Inr rs"
    if "store_ok f" "reads_in_bounds env" "list_all chunk_ok unf"
    unfolding assms(3) using that by (rule raw_reads_return)
  ultimately show ?thesis
    by (simp add: assms(3))
qed

theorem ReadAt_reads_every_range_witness:
  "store_ok (SetCache store46 (Some 7)) \<and> reads_in_bounds (double_split disk46 [0]) \<and>
   raw_reads (double_split disk46 [0]) (SetCache store46 (Some 7))
      [\<lparr>chunk_i = 3, chunk_data = [0]\<rparr>, \<lparr>chunk_i = 4, chunk_data = [0, 0]\<rparr>] [CacheReadAt 7 3 3] =
     [(Inr (0, Some (ExternalError ''read failed''), [0]), [CacheReadAt 7 3 3, FileReadAt 0 1 3]),
      (Inr (2, None, [20, 21]), [CacheReadAt 7 3 3, FileReadAt 0 1 3, FileReadAt 1 2 0])] \<and>
   ReadAt (double_split disk46 [0]) (SetCache store46 (Some 7)) [0, 0, 0] 3 [] =
     (Inr (3, Some (ExternalError ''read failed''), [0, 0, 0],
           [\<lparr>chunk_i = 3, chunk_data = [0]\<rparr>, \<lparr>chunk_i = 4, chunk_data = [20, 21]\<rparr>]),
      [CacheReadAt 7 3 3, FileReadAt 0 1 3, FileReadAt 1 2 0])"
proof -
  have ok: "store_ok (SetCache store46 (Some 7))"
    by (simp add: store_ok_def store46_def lengths_def totalSize_def SetCache_def)
  have rb: "reads_in_bounds (double_split disk46 [0])"
    by (simp add: reads_in_bounds_def double_split_def double_def double_ReadAt_def Let_def)
  have c: "cache (SetCache store46 (Some 7)) = Some 7"
    by (simp add: SetCache_def)
  have cr: "cache_ReadAt (double_split disk46 [0]) [] 7 [0, 0, 0] 3 =
              ([0, 0, 0], [\<lparr>chunk_i = 3, chunk_data = [0]\<rparr>, \<lparr>chunk_i = 4, chunk_data = [0, 0]\<rparr>])"
    by (simp add: double_split_def double_def)
  have uok: "list_all chunk_ok [\<lparr>chunk_i = 3, chunk_data = [0]\<rparr>, \<lparr>chunk_i = 4, chunk_data = [0, 0]\<rparr>]"
    by (simp add: chunk_ok_def)
  have h: "[] @ [CacheReadAt 7 (length [0, 0, 0 :: byte]) 3] = [CacheReadAt 7 3 3]"
    by simp
  have outs: "raw_reads (double_split disk46 [0]) (SetCache store46 (Some 7))
      [\<lparr>chunk_i = 3, chunk_data = [0]\<rparr>, \<lparr>chunk_i = 4, chunk_data = [0, 0]\<rparr>] [CacheReadAt 7 3 3] =
     [(Inr (0, Some (ExternalError ''read failed''), [0]), [CacheReadAt 7 3 3, FileReadAt 0 1 3]),
      (Inr (2, None, [20, 21]), [CacheReadAt 7 3 3, FileReadAt 0 1 3, FileReadAt 1 2 0])]"
    by (simp add: example_defs)
  from ReadAt_reads_every_range [OF c cr refl, unfolded h outs] ok rb uok
  have "ReadAt (double_split disk46 [0]) (SetCache store46 (Some 7)) [0, 0, 0] 3 [] =
     (Inr (3, Some (ExternalError ''read failed''), [0, 0, 0],
           [\<lparr>chunk_i = 3, chunk_data = [0]\<rparr>, \<lparr>chunk_i = 4, chunk_data = [20, 21]\<rparr>]),
      [CacheReadAt 7 3 3, FileReadAt 0 1 3, FileReadAt 1 2 0])"
    by (auto simp: Cons_eq_map_conv overwrite_def)
  with ok rb outs show ?thesis by simp
qed


end
